theory Spec2Isabelle
  imports Complex_Main
begin

section \<open>Numbers, errors and external collaborators\<close>

text \<open>
  Python integers are modelled by \<open>int\<close>. Python floats are modelled by \<open>real\<close>:
  every vertical position and displacement of the game is a multiple of one half, so
  the float arithmetic of the physics is exact. The fitness accumulator adds the
  constant 0.1: the evaluation loop is given twice, first with the fitness idealised as
  an exact real, then with the fitness in double precision, every operation rounded.
\<close>

datatype error = IndexError

text \<open>Python's \<open>round\<close> on a float: to the nearest integer, ties to the even one.\<close>

definition py_round :: "real \<Rightarrow> int" where
  "py_round r =
    (let f = \<lfloor>r\<rfloor>; frac = r - of_int f
     in if frac < 1 / 2 then f
        else if frac > 1 / 2 then f + 1
        else if even f then f else f + 1)"

text \<open>
  \<open>random.randrange(start, stop)\<close> of the standard library: an integer of
  \<open>range(start, stop)\<close> chosen by the state of the generator, which is the third
  argument here.
\<close>

definition randrange :: "int \<Rightarrow> int \<Rightarrow> nat \<Rightarrow> int" where
  "randrange start stop g = start + int g mod (stop - start)"

text \<open>
  The image files are not part of the sources. What the code reads from them are the
  sprite dimensions and the pixel masks; they are a parameter of every function that
  uses them. \<open>overlap_top A i off\<close> says whether the mask of the bird image \<open>i\<close>
  overlaps the mask of the flipped pipe image at offset \<open>off\<close> (the result of
  \<open>Mask.overlap\<close> is a point, which is truthy, or \<open>None\<close>).
\<close>

record assets =
  bird_img_height :: "int \<Rightarrow> nat"
  pipe_img_width :: nat
  pipe_img_height :: nat
  base_img_width :: nat
  overlap_top :: "int \<Rightarrow> int \<times> int \<Rightarrow> bool"
  overlap_bottom :: "int \<Rightarrow> int \<times> int \<Rightarrow> bool"

definition WIN_WIDTH :: int where
  "WIN_WIDTH = 576"

definition WIN_HEIGHT :: int where
  "WIN_HEIGHT = 800"

section \<open>Bird\<close>

record bird =
  x :: int
  y :: real
  tilt :: int
  tick_count :: int
  vel :: real
  height :: real
  img_count :: int
  img :: int

text \<open>The bird of the NEAT variant carries the additional \<open>alive\<close> flag.\<close>

record neat_bird = bird +
  alive :: bool

definition MAX_ROTATION :: int where
  "MAX_ROTATION = 25"

definition ROT_VEL :: int where
  "ROT_VEL = 20"

definition ANIMATION_TIME :: int where
  "ANIMATION_TIME = 5"

definition Bird_init :: "int \<Rightarrow> real \<Rightarrow> 'a \<Rightarrow> 'a bird_scheme" where
  "Bird_init x0 y0 m =
    \<lparr>bird.x = x0, bird.y = y0, tilt = 0, tick_count = 0, vel = 0, bird.height = y0,
     img_count = 0, img = 0, \<dots> = m\<rparr>"

definition Bird_jump :: "'a bird_scheme \<Rightarrow> 'a bird_scheme" where
  "Bird_jump b = b\<lparr>vel := - 9.5, tick_count := 0, bird.height := bird.y b\<rparr>"

definition Bird_move :: "'a bird_scheme \<Rightarrow> 'a bird_scheme" where
  "Bird_move b =
    (let tc = tick_count b + 1;
         d = vel b * of_int tc + 0.5 * 3 * of_int (tc ^ 2);
         d = (if d \<ge> 16 then 16 else d);
         d = (if d < 0 then d - 2 else d);
         y' = bird.y b + d
     in b\<lparr>tick_count := tc, bird.y := y',
          tilt := (if d < 0 \<or> y' < bird.height b + 50
                   then (if tilt b < MAX_ROTATION then MAX_ROTATION else tilt b)
                   else (if tilt b > - 90 then tilt b - ROT_VEL else tilt b))\<rparr>)"

text \<open>\<open>Bird.draw\<close>, reduced to what it does to the bird: the animation frame.\<close>

definition Bird_draw :: "'a bird_scheme \<Rightarrow> 'a bird_scheme" where
  "Bird_draw b =
    (let b = b\<lparr>img_count := img_count b + 1\<rparr>;
         idx = (img_count b div ANIMATION_TIME) mod 3;
         b = b\<lparr>img := idx\<rparr>
     in if tilt b \<le> - 80 then b\<lparr>img := 1, img_count := ANIMATION_TIME * 2\<rparr> else b)"

section \<open>Pipe\<close>

record pipe =
  x :: int
  passed :: bool
  height :: int
  top :: int
  bottom :: int

definition GAP :: int where
  "GAP = 150"

definition Pipe_VEL :: int where
  "Pipe_VEL = 5"

definition Pipe_set_height :: "assets \<Rightarrow> nat \<Rightarrow> pipe \<Rightarrow> pipe" where
  "Pipe_set_height A g p =
    (let h = randrange 50 350 g
     in p\<lparr>pipe.height := h, top := h - int (pipe_img_height A), bottom := h + GAP\<rparr>)"

text \<open>The three fields that \<open>set_height\<close> assigns do not exist before it runs.\<close>

definition Pipe_init :: "assets \<Rightarrow> nat \<Rightarrow> int \<Rightarrow> pipe" where
  "Pipe_init A g x0 =
    Pipe_set_height A g \<lparr>pipe.x = x0, passed = False, pipe.height = 0, top = 0, bottom = 0\<rparr>"

definition Pipe_move :: "pipe \<Rightarrow> pipe" where
  "Pipe_move p = p\<lparr>pipe.x := pipe.x p - Pipe_VEL\<rparr>"

definition Pipe_collide :: "assets \<Rightarrow> pipe \<Rightarrow> 'a bird_scheme \<Rightarrow> bool" where
  "Pipe_collide A p b =
    (let top_offset = (pipe.x p - bird.x b, top p - py_round (bird.y b));
         bottom_offset = (pipe.x p - bird.x b, bottom p - py_round (bird.y b))
     in overlap_top A (img b) top_offset \<or> overlap_bottom A (img b) bottom_offset)"

section \<open>Base\<close>

record base =
  y :: int
  x1 :: int
  x2 :: int

definition Base_VEL :: int where
  "Base_VEL = 5"

definition Base_init :: "assets \<Rightarrow> int \<Rightarrow> base" where
  "Base_init A y0 = \<lparr>base.y = y0, x1 = 0, x2 = int (base_img_width A)\<rparr>"

definition Base_move :: "assets \<Rightarrow> base \<Rightarrow> base" where
  "Base_move A b =
    (let W = int (base_img_width A);
         b = b\<lparr>x1 := x1 b - Base_VEL\<rparr>;
         b = b\<lparr>x2 := x2 b - Base_VEL\<rparr>;
         b = (if x1 b + W < 0 then b\<lparr>x1 := x2 b + W\<rparr> else b);
         b = (if x2 b + W < 0 then b\<lparr>x2 := x1 b + W\<rparr> else b)
     in b)"

text \<open>
  The boundary test that both loops apply to a bird: its sprite reaches the ground line,
  or the bird is above the top edge of the window.
\<close>

definition beyond_bounds :: "assets \<Rightarrow> base \<Rightarrow> 'a bird_scheme \<Rightarrow> bool" where
  "beyond_bounds A ground b \<longleftrightarrow>
    bird.y b + of_nat (bird_img_height A (img b)) \<ge> of_int (base.y ground) \<or> bird.y b < 0"

section \<open>The game loop of the manual variant\<close>

datatype key = K_SPACE | K_UP | K_ESCAPE | K_OTHER

datatype event = QUIT | KEYDOWN key | OTHER_EVENT

text \<open>The local variables of \<open>main\<close> that the loop reads and writes.\<close>

record game =
  bird :: bird
  base :: base
  pipes :: "pipe list"
  score :: int
  run :: bool

record main_input =
  events :: "event list"
  entropy :: nat

text \<open>The loop over the event queue; \<open>break\<close> leaves the rest of the queue unread.\<close>

fun poll_events :: "event list \<Rightarrow> bird \<times> bool \<Rightarrow> bird \<times> bool" where
  "poll_events [] st = st"
| "poll_events (QUIT # es) (b, r) = (b, False)"
| "poll_events (KEYDOWN k # es) (b, r) =
    (let b = (if k = K_SPACE \<or> k = K_UP then Bird_jump b else b)
     in if k = K_ESCAPE then (b, False) else poll_events es (b, r))"
| "poll_events (OTHER_EVENT # es) st = poll_events es st"

text \<open>
  The body of the loop over the pipes. \<open>draw_window\<close> on a crash draws the bird, which
  advances its animation frame.
\<close>

definition main_pipe_body :: "assets \<Rightarrow> pipe \<Rightarrow> pipe list \<times> bird \<times> bool \<times> bool \<times> pipe list
    \<Rightarrow> pipe list \<times> bird \<times> bool \<times> bool \<times> pipe list" where
  "main_pipe_body A p = (\<lambda>(pipes, bird, run, add_pipe, rem).
    let p = Pipe_move p;
        (bird, run) = (if Pipe_collide A p bird then (Bird_draw bird, False) else (bird, run));
        (p, add_pipe) =
          (if \<not> passed p \<and> pipe.x p < bird.x bird
           then (p\<lparr>passed := True\<rparr>, True) else (p, add_pipe));
        rem = (if pipe.x p + int (pipe_img_width A) < 0 then rem @ [p] else rem)
    in (pipes @ [p], bird, run, add_pipe, rem))"

definition main_tick :: "assets \<Rightarrow> main_input \<Rightarrow> game \<Rightarrow> game" where
  "main_tick A inp g =
    (let (bird, run) = poll_events (events inp) (bird g, run g);
         bird = Bird_move bird;
         (pipes, bird, run, add_pipe, rem) =
           fold (main_pipe_body A) (pipes g) ([], bird, run, False, []);
         score = (if add_pipe then score g + 1 else score g);
         pipes = (if add_pipe then pipes @ [Pipe_init A (entropy inp) (WIN_WIDTH + 100)] else pipes);
         pipes = fold remove1 rem pipes;
         (bird, run) =
           (if beyond_bounds A (base g) bird then (Bird_draw bird, False) else (bird, run));
         base = Base_move A (base g);
         bird = Bird_draw bird
     in \<lparr>bird = bird, base = base, pipes = pipes, score = score, run = run\<rparr>)"

text \<open>
  The \<open>while run\<close> loop on a finite prefix of its inputs: the game is over with the
  final score, or still being played in the given state.
\<close>

datatype main_outcome = GameOver int | Playing game

fun main_loop :: "assets \<Rightarrow> main_input list \<Rightarrow> game \<Rightarrow> main_outcome" where
  "main_loop A [] g = (if run g then Playing g else GameOver (score g))"
| "main_loop A (inp # rest) g =
    (if run g then main_loop A rest (main_tick A inp g) else GameOver (score g))"

definition main :: "assets \<Rightarrow> nat \<Rightarrow> main_input list \<Rightarrow> main_outcome" where
  "main A g0 inps =
    main_loop A inps
      \<lparr>bird = Bird_init 230 350 (), base = Base_init A 730, pipes = [Pipe_init A g0 700],
       score = 0, run = True\<rparr>"

section \<open>The evaluation loop of the NEAT variant\<close>

text \<open>
  A genome is represented by the decision function of the network built from it: the
  first output of \<open>activate\<close> on the three observations. The genomes of a population
  are distinct objects, so their fitness values are the list \<open>ge\<close>, parallel to
  \<open>birds\<close> and to the networks. \<open>gen\<close> is the global generation counter.
\<close>

type_synonym net = "real \<Rightarrow> real \<Rightarrow> real \<Rightarrow> real"

record sim =
  birds :: "neat_bird list"
  ge :: "real list"
  pipes :: "pipe list"
  base :: base
  score :: int
  gen :: int

text \<open>
  What one tick reads from outside: whether the event queue holds a \<open>QUIT\<close> event,
  and the state of the random generator for a pipe constructed in this tick.
\<close>

record tick_input =
  quit :: bool
  entropy :: nat

datatype 'a step = Continue 'a | Break | SystemExit | Raise error

text \<open>The body of the first loop over the birds, for the bird at index \<open>i\<close>.\<close>

definition think :: "net list \<Rightarrow> pipe \<Rightarrow> nat \<Rightarrow> neat_bird list \<times> real list \<Rightarrow> neat_bird list \<times> real list" where
  "think nets lead i = (\<lambda>(birds, ge).
    if \<not> alive (birds ! i) then (birds, ge)
    else
      let bird = Bird_move (birds ! i);
          fitness = ge ! i + 0.1;
          top_dist = \<bar>bird.y bird - of_int (pipe.height lead)\<bar>;
          bottom_dist = \<bar>bird.y bird - of_int (pipe.height lead + GAP)\<bar>;
          output = (nets ! i) (bird.y bird) top_dist bottom_dist;
          bird = (if output > 0.5 then Bird_jump bird else bird)
      in (birds[i := bird], ge[i := fitness]))"

text \<open>The collision test of one pipe against the bird at index \<open>i\<close>.\<close>

definition hit :: "assets \<Rightarrow> pipe \<Rightarrow> nat \<Rightarrow> neat_bird list \<times> real list \<Rightarrow> neat_bird list \<times> real list" where
  "hit A p i = (\<lambda>(birds, ge).
    if alive (birds ! i) \<and> Pipe_collide A p (birds ! i)
    then (birds[i := (birds ! i)\<lparr>alive := False\<rparr>], ge[i := ge ! i - 1])
    else (birds, ge))"

text \<open>
  The body of the loop over the pipes. Its state: the pipes already visited, as the loop
  left them, the birds, the fitness values, \<open>add_pipe\<close> and \<open>rem\<close>.
\<close>

definition pipe_body :: "assets \<Rightarrow> pipe \<Rightarrow> pipe list \<times> neat_bird list \<times> real list \<times> bool \<times> pipe list
    \<Rightarrow> pipe list \<times> neat_bird list \<times> real list \<times> bool \<times> pipe list" where
  "pipe_body A pipe = (\<lambda>(pipes, birds, ge, add_pipe, rem).
    let pipe = Pipe_move pipe;
        (birds, ge) = fold (hit A pipe) [0..<length birds] (birds, ge);
        (pipe, add_pipe) =
          (if \<not> passed pipe \<and> bird.x (birds ! 0) > pipe.x pipe
           then (pipe\<lparr>passed := True\<rparr>, True) else (pipe, add_pipe));
        rem = (if pipe.x pipe + int (pipe_img_width A) < 0 then rem @ [pipe] else rem)
    in (pipes @ [pipe], birds, ge, add_pipe, rem))"

text \<open>The boundary test for the bird at index \<open>i\<close>.\<close>

definition out_of_bounds :: "assets \<Rightarrow> base \<Rightarrow> nat \<Rightarrow> neat_bird list \<times> real list \<Rightarrow> neat_bird list \<times> real list" where
  "out_of_bounds A ground i = (\<lambda>(birds, ge).
    let bird = birds ! i
    in if alive bird \<and> beyond_bounds A ground bird
       then (birds[i := bird\<lparr>alive := False\<rparr>], ge[i := ge ! i - 1])
       else (birds, ge))"

text \<open>\<open>draw_window\<close>, reduced to what it does to the birds.\<close>

definition draw_window :: "neat_bird list \<Rightarrow> neat_bird list" where
  "draw_window bs = map (\<lambda>bird. if alive bird then Bird_draw bird else bird) bs"

text \<open>The index of the pipe that the birds observe in this tick.\<close>

definition pipe_ind :: "assets \<Rightarrow> sim \<Rightarrow> nat" where
  "pipe_ind A s =
    (let alive_birds = filter alive (birds s)
     in if length (pipes s) > 1 \<and>
           bird.x (alive_birds ! 0) > pipe.x (pipes s ! 0) + int (pipe_img_width A)
        then 1 else 0)"

text \<open>
  One pass through the body of the \<open>while\<close> loop. The lookup \<open>pipes[pipe_ind]\<close>
  stands in the loop over the birds and is reached as soon as one bird is alive, which
  is the case once the \<open>break\<close> was not taken.
\<close>

definition tick :: "assets \<Rightarrow> net list \<Rightarrow> tick_input \<Rightarrow> sim \<Rightarrow> sim step" where
  "tick A nets inp s =
    (if quit inp then SystemExit
     else
       let alive_birds = filter alive (birds s);
           alive_count = length alive_birds
       in if alive_count = 0 then Break
          else if pipe_ind A s \<ge> length (pipes s) then Raise IndexError
          else
            let (birds, ge) =
                  fold (think nets (pipes s ! pipe_ind A s)) [0..<length (birds s)] (birds s, ge s);
                (pipes, birds, ge, add_pipe, rem) =
                  fold (pipe_body A) (pipes s) ([], birds, ge, False, []);
                score = (if add_pipe then score s + 1 else score s);
                ge = (if add_pipe then map (\<lambda>fitness. fitness + 5) ge else ge);
                pipes = (if add_pipe then pipes @ [Pipe_init A (entropy inp) (WIN_WIDTH + 100)] else pipes);
                pipes = fold remove1 rem pipes;
                (birds, ge) = fold (out_of_bounds A (base s)) [0..<length birds] (birds, ge);
                base = Base_move A (base s);
                birds = draw_window birds
            in Continue (s\<lparr>birds := birds, ge := ge, pipes := pipes, base := base, score := score\<rparr>))"

text \<open>
  The outcome of the loop on a finite prefix of its inputs: it has returned, the process
  has exited, an exception has escaped, or the loop is still running in the given state
  after the last input.
\<close>

datatype outcome = Returned sim | Exited | Raised error | Running sim

fun eval_loop :: "assets \<Rightarrow> net list \<Rightarrow> tick_input list \<Rightarrow> sim \<Rightarrow> outcome" where
  "eval_loop A nets [] s = Running s"
| "eval_loop A nets (inp # rest) s =
    (case tick A nets inp s of
       Continue s' \<Rightarrow> eval_loop A nets rest s'
     | Break \<Rightarrow> Returned s
     | SystemExit \<Rightarrow> Exited
     | Raise e \<Rightarrow> Raised e)"

text \<open>
  \<open>eval_genomes\<close>: \<open>GEN\<close> is the global generation counter, \<open>g0\<close> the state of
  the random generator for the first pipe. \<open>generation_start\<close> is the state in which
  the \<open>while\<close> loop is entered.
\<close>

definition generation_start :: "assets \<Rightarrow> net list \<Rightarrow> int \<Rightarrow> nat \<Rightarrow> sim" where
  "generation_start A nets GEN g0 =
    \<lparr>birds = map (\<lambda>_. Bird_init 230 350 \<lparr>alive = True\<rparr>) nets,
     ge = map (\<lambda>_. 0) nets,
     pipes = [Pipe_init A g0 700],
     base = Base_init A 730,
     score = 0,
     gen = GEN + 1\<rparr>"

definition eval_genomes :: "assets \<Rightarrow> net list \<Rightarrow> int \<Rightarrow> nat \<Rightarrow> tick_input list \<Rightarrow> outcome" where
  "eval_genomes A nets GEN g0 inps = eval_loop A nets inps (generation_start A nets GEN g0)"

section \<open>The evaluation loop with the fitness in double precision\<close>

text \<open>
  The fitness of a genome is a Python float, an IEEE 754 double. \<open>double r\<close> is the
  double nearest to the real \<open>r\<close>, ties to the even mantissa: the value that a float
  operation with the exact result \<open>r\<close> returns, and the value of a literal that
  denotes \<open>r\<close>. The mantissa has 53 bits; below the exponent \<open>- 1022\<close> the doubles
  are equally spaced. \<open>binary_exponent n r\<close> is the exponent \<open>e\<close> with
  \<open>2 ^ e \<le> r < 2 ^ (e + 1)\<close>, found in at most \<open>n\<close> steps; 2100 steps cover the
  exponents of all doubles. Overflow to infinity is not modelled: at 0.1 per tick and 5 per
  pipe no run of the loop comes near it.
\<close>

fun binary_exponent :: "nat \<Rightarrow> real \<Rightarrow> int" where
  "binary_exponent 0 r = 0"
| "binary_exponent (Suc n) r =
    (if r \<ge> 2 then binary_exponent n (r / 2) + 1
     else if r < 1 then binary_exponent n (r * 2) - 1
     else 0)"

definition double :: "real \<Rightarrow> real" where
  "double r =
    (if r = 0 then 0
     else let e = max (binary_exponent 2100 \<bar>r\<bar>) (- 1022) - 52
          in of_int (py_round (r / 2 powi e)) * 2 powi e)"

text \<open>
  The evaluation loop with the fitness in double precision. The definitions are those of
  \<open>think\<close>, \<open>hit\<close>, \<open>pipe_body\<close>, \<open>out_of_bounds\<close>, \<open>tick\<close>, \<open>eval_loop\<close>
  and \<open>eval_genomes\<close> with every operation on a fitness rounded to a double.
\<close>

definition think64 :: "net list \<Rightarrow> pipe \<Rightarrow> nat \<Rightarrow> neat_bird list \<times> real list \<Rightarrow> neat_bird list \<times> real list" where
  "think64 nets lead i = (\<lambda>(birds, ge).
    if \<not> alive (birds ! i) then (birds, ge)
    else
      let bird = Bird_move (birds ! i);
          fitness = double (ge ! i + double 0.1);
          top_dist = \<bar>bird.y bird - of_int (pipe.height lead)\<bar>;
          bottom_dist = \<bar>bird.y bird - of_int (pipe.height lead + GAP)\<bar>;
          output = (nets ! i) (bird.y bird) top_dist bottom_dist;
          bird = (if output > 0.5 then Bird_jump bird else bird)
      in (birds[i := bird], ge[i := fitness]))"

definition hit64 :: "assets \<Rightarrow> pipe \<Rightarrow> nat \<Rightarrow> neat_bird list \<times> real list \<Rightarrow> neat_bird list \<times> real list" where
  "hit64 A p i = (\<lambda>(birds, ge).
    if alive (birds ! i) \<and> Pipe_collide A p (birds ! i)
    then (birds[i := (birds ! i)\<lparr>alive := False\<rparr>], ge[i := double (ge ! i - 1)])
    else (birds, ge))"

definition pipe_body64 :: "assets \<Rightarrow> pipe \<Rightarrow> pipe list \<times> neat_bird list \<times> real list \<times> bool \<times> pipe list
    \<Rightarrow> pipe list \<times> neat_bird list \<times> real list \<times> bool \<times> pipe list" where
  "pipe_body64 A pipe = (\<lambda>(pipes, birds, ge, add_pipe, rem).
    let pipe = Pipe_move pipe;
        (birds, ge) = fold (hit64 A pipe) [0..<length birds] (birds, ge);
        (pipe, add_pipe) =
          (if \<not> passed pipe \<and> bird.x (birds ! 0) > pipe.x pipe
           then (pipe\<lparr>passed := True\<rparr>, True) else (pipe, add_pipe));
        rem = (if pipe.x pipe + int (pipe_img_width A) < 0 then rem @ [pipe] else rem)
    in (pipes @ [pipe], birds, ge, add_pipe, rem))"

definition out_of_bounds64 :: "assets \<Rightarrow> base \<Rightarrow> nat \<Rightarrow> neat_bird list \<times> real list \<Rightarrow> neat_bird list \<times> real list" where
  "out_of_bounds64 A ground i = (\<lambda>(birds, ge).
    let bird = birds ! i
    in if alive bird \<and> beyond_bounds A ground bird
       then (birds[i := bird\<lparr>alive := False\<rparr>], ge[i := double (ge ! i - 1)])
       else (birds, ge))"

definition tick64 :: "assets \<Rightarrow> net list \<Rightarrow> tick_input \<Rightarrow> sim \<Rightarrow> sim step" where
  "tick64 A nets inp s =
    (if quit inp then SystemExit
     else
       let alive_birds = filter alive (birds s);
           alive_count = length alive_birds
       in if alive_count = 0 then Break
          else if pipe_ind A s \<ge> length (pipes s) then Raise IndexError
          else
            let (birds, ge) =
                  fold (think64 nets (pipes s ! pipe_ind A s)) [0..<length (birds s)] (birds s, ge s);
                (pipes, birds, ge, add_pipe, rem) =
                  fold (pipe_body64 A) (pipes s) ([], birds, ge, False, []);
                score = (if add_pipe then score s + 1 else score s);
                ge = (if add_pipe then map (\<lambda>fitness. double (fitness + 5)) ge else ge);
                pipes = (if add_pipe then pipes @ [Pipe_init A (entropy inp) (WIN_WIDTH + 100)] else pipes);
                pipes = fold remove1 rem pipes;
                (birds, ge) = fold (out_of_bounds64 A (base s)) [0..<length birds] (birds, ge);
                base = Base_move A (base s);
                birds = draw_window birds
            in Continue (s\<lparr>birds := birds, ge := ge, pipes := pipes, base := base, score := score\<rparr>))"

fun eval_loop64 :: "assets \<Rightarrow> net list \<Rightarrow> tick_input list \<Rightarrow> sim \<Rightarrow> outcome" where
  "eval_loop64 A nets [] s = Running s"
| "eval_loop64 A nets (inp # rest) s =
    (case tick64 A nets inp s of
       Continue s' \<Rightarrow> eval_loop64 A nets rest s'
     | Break \<Rightarrow> Returned s
     | SystemExit \<Rightarrow> Exited
     | Raise e \<Rightarrow> Raised e)"

definition eval_genomes64 :: "assets \<Rightarrow> net list \<Rightarrow> int \<Rightarrow> nat \<Rightarrow> tick_input list \<Rightarrow> outcome" where
  "eval_genomes64 A nets GEN g0 inps = eval_loop64 A nets inps (generation_start A nets GEN g0)"

section \<open>A concrete set of sprites and three decision functions\<close>

text \<open>
  Opaque rectangular sprites with the dimensions of the stock images after
  \<open>scale2x\<close>: a bird of 68 by 48, a pipe of 104 by 640, a ground of width 672. Two
  opaque rectangles overlap at an offset exactly when their extents intersect.
\<close>

definition rect_overlap :: "nat \<Rightarrow> nat \<Rightarrow> nat \<Rightarrow> nat \<Rightarrow> int \<times> int \<Rightarrow> bool" where
  "rect_overlap bw bh pw ph = (\<lambda>(ox, oy).
    ox < int bw \<and> 0 < ox + int pw \<and> oy < int bh \<and> 0 < oy + int ph)"

definition stock :: assets where
  "stock =
    \<lparr>bird_img_height = (\<lambda>_. 48), pipe_img_width = 104, pipe_img_height = 640,
     base_img_width = 672,
     overlap_top = (\<lambda>_. rect_overlap 68 48 104 640),
     overlap_bottom = (\<lambda>_. rect_overlap 68 48 104 640)\<rparr>"

definition never_jump :: net where
  "never_jump = (\<lambda>y top_dist bottom_dist. 0)"

definition always_jump :: net where
  "always_jump = (\<lambda>y top_dist bottom_dist. 1)"

text \<open>Jump whenever the bird is below the height 280.\<close>

definition hover :: net where
  "hover = (\<lambda>y top_dist bottom_dist. if y > 280 then 1 else 0)"

text \<open>No \<open>QUIT\<close> event, and a generator state that makes the gap of a new pipe start at 200.\<close>

definition no_quit :: tick_input where
  "no_quit = \<lparr>quit = False, entropy = 150\<rparr>"


section \<open>Notions used in the statements and proofs about the evaluation loop\<close>

text \<open>
  The reference bird crosses an unpassed pipe in the tick that starts in state \<open>s\<close>:
  after the pipe has moved, the \<open>x\<close> of \<open>birds[0]\<close> strictly exceeds the \<open>x\<close> of the pipe.
\<close>

definition crossing :: "sim \<Rightarrow> bool" where
  "crossing s \<longleftrightarrow> (\<exists>p\<in>set (pipes s). \<not> passed p \<and> pipe.x p - Pipe_VEL < bird.x (birds s ! 0))"

text \<open>The same for the bird of the manual game and the state \<open>g\<close> of its loop.\<close>

definition main_crossing :: "game \<Rightarrow> bool" where
  "main_crossing g \<longleftrightarrow>
     (\<exists>p\<in>set (game.pipes g). \<not> passed p \<and> pipe.x p - Pipe_VEL < bird.x (game.bird g))"

text \<open>
  The number of ticks of a run of the loop from state \<open>s\<close> on the inputs \<open>inps\<close> that
  the bird at index \<open>i\<close> began alive: the ticks it has survived.
\<close>

fun alive_ticks :: "assets \<Rightarrow> net list \<Rightarrow> tick_input list \<Rightarrow> sim \<Rightarrow> nat \<Rightarrow> nat" where
  "alive_ticks A nets [] s i = 0"
| "alive_ticks A nets (inp # rest) s i =
    (case tick A nets inp s of
       Continue s' \<Rightarrow> (if alive (birds s ! i) then 1 else 0) + alive_ticks A nets rest s' i
     | _ \<Rightarrow> 0)"

text \<open>What the first loop does to a bird that is alive.\<close>

definition think_bird :: "net \<Rightarrow> pipe \<Rightarrow> neat_bird \<Rightarrow> neat_bird" where
  "think_bird net lead b =
    (let bird = Bird_move b;
         top_dist = \<bar>bird.y bird - of_int (pipe.height lead)\<bar>;
         bottom_dist = \<bar>bird.y bird - of_int (pipe.height lead + GAP)\<bar>
     in if net (bird.y bird) top_dist bottom_dist > 0.5 then Bird_jump bird else bird)"

text \<open>What the loop over the pipes does to the \<open>passed\<close> flag of a pipe that has moved.\<close>

definition cross :: "int \<Rightarrow> pipe \<Rightarrow> pipe" where
  "cross x0 p = (if \<not> passed p \<and> x0 > pipe.x p then p\<lparr>passed := True\<rparr> else p)"

text \<open>
  The relation between the birds and fitness values before and after a loop that only
  marks birds dead: a bird changes at most in its \<open>alive\<close> flag, which only falls, and
  the fitness falls by one exactly for a bird whose flag fell.
\<close>

definition only_deaths :: "neat_bird list \<Rightarrow> real list \<Rightarrow> neat_bird list \<Rightarrow> real list \<Rightarrow> bool" where
  "only_deaths bs fs bs' fs' \<longleftrightarrow>
     length bs' = length bs \<and> length fs' = length fs \<and>
     (\<forall>i<length bs.
        bs' ! i = (bs ! i)\<lparr>alive := alive (bs' ! i)\<rparr> \<and>
        (alive (bs' ! i) \<longrightarrow> alive (bs ! i)) \<and>
        fs' ! i = fs ! i - (if alive (bs ! i) \<and> \<not> alive (bs' ! i) then 1 else 0))"

text \<open>
  The two causes of death in the tick that starts in state \<open>s\<close>, for the bird at index
  \<open>i\<close>: the bird, as the first loop leaves it, collides with one of the pipes after the
  pipe has moved; or it does not, and is beyond the bounds in the boundary test.
\<close>

definition hits_pipe :: "assets \<Rightarrow> net list \<Rightarrow> sim \<Rightarrow> nat \<Rightarrow> bool" where
  "hits_pipe A nets s i \<longleftrightarrow>
     alive (birds s ! i) \<and>
     (\<exists>p\<in>set (pipes s).
        Pipe_collide A (Pipe_move p) (think_bird (nets ! i) (pipes s ! pipe_ind A s) (birds s ! i)))"

definition leaves_bounds :: "assets \<Rightarrow> net list \<Rightarrow> sim \<Rightarrow> nat \<Rightarrow> bool" where
  "leaves_bounds A nets s i \<longleftrightarrow>
     alive (birds s ! i) \<and> \<not> hits_pipe A nets s i \<and>
     beyond_bounds A (base s) (think_bird (nets ! i) (pipes s ! pipe_ind A s) (birds s ! i))"

text \<open>
  The bird at index \<open>i\<close> collides with a pipe, or dies at the boundary, in some tick of
  the run of the loop from state \<open>s\<close> on the inputs \<open>inps\<close>.
\<close>

fun collides :: "assets \<Rightarrow> net list \<Rightarrow> tick_input list \<Rightarrow> sim \<Rightarrow> nat \<Rightarrow> bool" where
  "collides A nets [] s i = False"
| "collides A nets (inp # rest) s i =
    (case tick A nets inp s of
       Continue s' \<Rightarrow> hits_pipe A nets s i \<or> collides A nets rest s' i
     | _ \<Rightarrow> False)"

fun boundary_death :: "assets \<Rightarrow> net list \<Rightarrow> tick_input list \<Rightarrow> sim \<Rightarrow> nat \<Rightarrow> bool" where
  "boundary_death A nets [] s i = False"
| "boundary_death A nets (inp # rest) s i =
    (case tick A nets inp s of
       Continue s' \<Rightarrow> leaves_bounds A nets s i \<or> boundary_death A nets rest s' i
     | _ \<Rightarrow> False)"




text \<open>An outcome of the loop without the fitness values.\<close>

fun without_fitness :: "outcome \<Rightarrow> outcome" where
  "without_fitness (Returned s) = Returned (s\<lparr>ge := []\<rparr>)"
| "without_fitness (Running s) = Running (s\<lparr>ge := []\<rparr>)"
| "without_fitness Exited = Exited"
| "without_fitness (Raised e) = Raised e"

text \<open>A bird that has jumped and has been moved \<open>t\<close> times since.\<close>

definition jumped :: "int \<Rightarrow> bird" where
  "jumped t = (Bird_jump (Bird_init 230 350 ()))\<lparr>tick_count := t\<rparr>"

section \<open>States of an example generation\<close>

text \<open>
  The generation of the two genomes \<open>hover\<close> and \<open>never_jump\<close> with the stock sprites,
  every gap starting at 200 and no \<open>QUIT\<close> event: the states after 24, 48, 72, 94 and
  95 ticks, as the evaluation lemmas below establish. The second bird falls to the ground
  in tick 23; the first pipe is passed in tick 95.
\<close>

definition fallen :: neat_bird where
  "fallen =
    \<lparr>bird.x = 230, y = 691, tilt = - 95, tick_count = 23, vel = 0, height = 350,
     img_count = 10, img = 1, alive = False\<rparr>"

definition hovering :: "real \<Rightarrow> int \<Rightarrow> real \<Rightarrow> int \<Rightarrow> int \<Rightarrow> neat_bird" where
  "hovering y0 tc h ic i =
    \<lparr>bird.x = 230, y = y0, tilt = 25, tick_count = tc, vel = - 9.5, height = h,
     img_count = ic, img = i, alive = True\<rparr>"

definition gap200 :: "int \<Rightarrow> bool \<Rightarrow> pipe" where
  "gap200 x0 p = \<lparr>pipe.x = x0, passed = p, height = 200, top = - 440, bottom = 350\<rparr>"

definition after_24 :: sim where
  "after_24 =
    \<lparr>birds = [hovering (483 / 2) 3 (567 / 2) 24 1, fallen], ge = [12 / 5, 13 / 10],
     pipes = [gap200 580 False],
     base = \<lparr>base.y = 730, x1 = - 120, x2 = 552\<rparr>, score = 0, gen = 1\<rparr>"

definition after_48 :: sim where
  "after_48 =
    \<lparr>birds = [hovering (479 / 2) 3 (563 / 2) 48 0, fallen], ge = [24 / 5, 13 / 10],
     pipes = [gap200 460 False],
     base = \<lparr>base.y = 730, x1 = - 240, x2 = 432\<rparr>, score = 0, gen = 1\<rparr>"

definition after_72 :: sim where
  "after_72 =
    \<lparr>birds = [hovering (551 / 2) 1 (571 / 2) 72 2, fallen], ge = [36 / 5, 13 / 10],
     pipes = [gap200 340 False],
     base = \<lparr>base.y = 730, x1 = - 360, x2 = 312\<rparr>, score = 0, gen = 1\<rparr>"

definition before_first_pass :: sim where
  "before_first_pass =
    \<lparr>birds = [hovering (587 / 2) 0 (587 / 2) 94 0, fallen], ge = [47 / 5, 13 / 10],
     pipes = [gap200 230 False],
     base = \<lparr>base.y = 730, x1 = - 470, x2 = 202\<rparr>, score = 0, gen = 1\<rparr>"

definition after_first_pass :: sim where
  "after_first_pass =
    \<lparr>birds = [hovering (567 / 2) 0 (567 / 2) 95 1, fallen], ge = [29 / 2, 63 / 10],
     pipes = [gap200 225 True, gap200 676 False],
     base = \<lparr>base.y = 730, x1 = - 475, x2 = 197\<rparr>, score = 1, gen = 1\<rparr>"









text \<open>The generation of the single genome \<open>never_jump\<close>, when the loop has returned.\<close>

definition died_on_ground :: sim where
  "died_on_ground =
    \<lparr>birds = [fallen], ge = [13 / 10], pipes = [gap200 585 False],
     base = \<lparr>base.y = 730, x1 = - 115, x2 = 557\<rparr>, score = 0, gen = 1\<rparr>"

text \<open>
  Three states that no run from the generation start reaches within the example: two
  unpassed pipes that the reference bird crosses in the same tick, for either loop, and a
  passed pipe that leaves the window in the next tick, with the state after that tick.
\<close>

definition two_crossings :: sim where
  "two_crossings = before_first_pass\<lparr>pipes := [gap200 230 False, gap200 232 False]\<rparr>"

definition two_crossings_game :: game where
  "two_crossings_game =
    \<lparr>bird = Bird_init 230 350 (), base = Base_init stock 730,
     pipes = [gap200 230 False, gap200 232 False], score = 0, run = True\<rparr>"

definition no_events :: main_input where
  "no_events = \<lparr>events = [], entropy = 150\<rparr>"

definition pipe_leaving :: sim where
  "pipe_leaving = after_first_pass\<lparr>pipes := [gap200 (- 100) True, gap200 351 False]\<rparr>"

definition pipe_left :: sim where
  "pipe_left =
    \<lparr>birds = [hovering (547 / 2) 1 (567 / 2) 96 1, fallen], ge = [73 / 5, 63 / 10],
     pipes = [gap200 346 False],
     base = \<lparr>base.y = 730, x1 = - 480, x2 = 192\<rparr>, score = 1, gen = 1\<rparr>"

section \<open>Bird physics\<close>

text \<open>
  C8. \<open>Bird.move\<close> (the same in both files) increments the tick counter, computes
  the displacement \<open>d = vel * ticks + 0.5 * 3 * ticks\<^sup>2\<close> from the incremented counter,
  replaces it by 16 when it is at least 16, lowers it by 2 more when it is negative, and
  adds it to the vertical position; the horizontal position and the velocity are unchanged.
\<close>

theorem Bird_move_displacement:
  "tick_count (Bird_move b) = tick_count b + 1 \<and>
   bird.y (Bird_move b) = bird.y b +
     (let ticks = tick_count (Bird_move b);
          d = vel b * of_int ticks + 0.5 * 3 * (of_int ticks)\<^sup>2
      in if d \<ge> 16 then 16 else if d < 0 then d - 2 else d) \<and>
   bird.x (Bird_move b) = bird.x b \<and>
   vel (Bird_move b) = vel b"
  by (simp add: Bird_move_def Let_def)

lemma jump_raw_mono:
  fixes t1 t2 :: int
  assumes "3 \<le> t1" "t1 \<le> t2"
  shows "- 9.5 * of_int t1 + 0.5 * 3 * (of_int (t1\<^sup>2) :: real)
       \<le> - 9.5 * of_int t2 + 0.5 * 3 * of_int (t2\<^sup>2)"
proof (cases "t1 = t2")
  case True
  then show ?thesis by simp
next
  case False
  with assms have lt: "t1 < t2" by simp
  have "7 \<le> t1 + t2" using assms lt by linarith
  then have "(7::real) \<le> of_int (t1 + t2)" by (metis of_int_le_iff of_int_numeral)
  then have a: "(0::real) \<le> 3 / 2 * (of_int t1 + of_int t2) - 19 / 2" by simp
  have b: "(0::real) \<le> of_int t2 - of_int t1" using lt by simp
  have "0 \<le> (of_int t2 - of_int t1) * (3 / 2 * (of_int t1 + of_int t2) - 19 / 2 :: real)"
    by (rule mult_nonneg_nonneg[OF b a])
  then show ?thesis by (simp add: power2_eq_square field_simps)
qed

lemma jump_raw_neg_iff:
  fixes t :: int
  assumes "1 \<le> t"
  shows "(- 9.5 * of_int t + 0.5 * 3 * (of_int (t\<^sup>2) :: real) < 0) = (t \<le> 6)"
proof (cases "t \<le> 6")
  case True
  with assms have "t = 1 \<or> t = 2 \<or> t = 3 \<or> t = 4 \<or> t = 5 \<or> t = 6" by presburger
  then show ?thesis by auto
next
  case False
  then have "7 \<le> t" by simp
  from jump_raw_mono[of 7 t] this show ?thesis by simp
qed

lemma Bird_move_dy:
  "bird.y (Bird_move b) - bird.y b =
     (let d = vel b * of_int (tick_count b + 1) + 0.5 * 3 * (of_int ((tick_count b + 1)\<^sup>2))
      in if d \<ge> 16 then 16 else if d < 0 then d - 2 else d)"
  by (simp add: Bird_move_def Let_def)

text \<open>
  C4. No call of \<open>Bird.move\<close> moves the bird down by more than 16 units. After a
  jump (velocity -9.5) the bird moves upward exactly in the first six calls (the tick
  counter before the call is 0 to 5). From the third call on, so in particular once
  the upward phase is over, the displacement of a later call is never smaller than
  the displacement of an earlier one.
\<close>

theorem displacement_after_jump:
  "(\<forall>b :: 'a bird_scheme. bird.y (Bird_move b) - bird.y b \<le> 16) \<and>
   (\<forall>b :: 'a bird_scheme. vel b = - 9.5 \<and> 0 \<le> tick_count b \<longrightarrow>
        (bird.y (Bird_move b) < bird.y b) = (tick_count b \<le> 5)) \<and>
   (\<forall>(b1 :: 'a bird_scheme) (b2 :: 'a bird_scheme). vel b1 = - 9.5 \<and> vel b2 = - 9.5 \<and>
        2 \<le> tick_count b1 \<and> tick_count b1 \<le> tick_count b2 \<longrightarrow>
        bird.y (Bird_move b1) - bird.y b1 \<le> bird.y (Bird_move b2) - bird.y b2)"
proof (intro conjI allI impI)
  fix b :: "'a bird_scheme"
  show "bird.y (Bird_move b) - bird.y b \<le> 16"
    by (simp add: Bird_move_dy Let_def)
next
  fix b :: "'a bird_scheme"
  assume h: "vel b = - 9.5 \<and> 0 \<le> tick_count b"
  define r :: real where
    "r = - 9.5 * of_int (tick_count b + 1) + 0.5 * 3 * of_int ((tick_count b + 1)\<^sup>2)"
  have "1 \<le> tick_count b + 1" using h by simp
  from jump_raw_neg_iff[OF this] have neg: "(r < 0) = (tick_count b \<le> 5)"
    unfolding r_def by simp
  have "bird.y (Bird_move b) - bird.y b = (if r \<ge> 16 then 16 else if r < 0 then r - 2 else r)"
    unfolding Bird_move_dy Let_def r_def using h by simp
  then have "(bird.y (Bird_move b) < bird.y b) = (r < 0)"
    by (auto split: if_splits)
  with neg show "(bird.y (Bird_move b) < bird.y b) = (tick_count b \<le> 5)" by simp
next
  fix b1 b2 :: "'a bird_scheme"
  assume h: "vel b1 = - 9.5 \<and> vel b2 = - 9.5 \<and> 2 \<le> tick_count b1 \<and> tick_count b1 \<le> tick_count b2"
  define r1 :: real where
    "r1 = - 9.5 * of_int (tick_count b1 + 1) + 0.5 * 3 * of_int ((tick_count b1 + 1)\<^sup>2)"
  define r2 :: real where
    "r2 = - 9.5 * of_int (tick_count b2 + 1) + 0.5 * 3 * of_int ((tick_count b2 + 1)\<^sup>2)"
  have "3 \<le> tick_count b1 + 1" "tick_count b1 + 1 \<le> tick_count b2 + 1" using h by simp_all
  from jump_raw_mono[OF this] have le: "r1 \<le> r2" unfolding r1_def r2_def by simp
  have d1: "bird.y (Bird_move b1) - bird.y b1 = (if r1 \<ge> 16 then 16 else if r1 < 0 then r1 - 2 else r1)"
    unfolding Bird_move_dy Let_def r1_def using h by simp
  have d2: "bird.y (Bird_move b2) - bird.y b2 = (if r2 \<ge> 16 then 16 else if r2 < 0 then r2 - 2 else r2)"
    unfolding Bird_move_dy Let_def r2_def using h by simp
  show "bird.y (Bird_move b1) - bird.y b1 \<le> bird.y (Bird_move b2) - bird.y b2"
    unfolding d1 d2 using le by (auto split: if_splits)
qed

theorem displacement_after_jump_witness:
  "bird.y (Bird_move (jumped 7)) - bird.y (jumped 7) \<le> 16 \<and>
   bird.y (Bird_move (jumped 2)) < bird.y (jumped 2) \<and>
   bird.y (Bird_move (jumped 2)) - bird.y (jumped 2) \<le>
     bird.y (Bird_move (jumped 7)) - bird.y (jumped 7) \<and>
   bird.y (Bird_move (jumped 2)) - bird.y (jumped 2) = - 17 \<and>
   bird.y (Bird_move (jumped 7)) - bird.y (jumped 7) = 16"
  using displacement_after_jump[where ?'a = unit]
  by (simp add: jumped_def Bird_jump_def Bird_init_def Bird_move_def Let_def)

section \<open>Pipes\<close>

text \<open>
  C3, as stated: the stored \<open>top\<close> and \<open>bottom\<close> of a new pipe are 150 apart. With
  the stock pipe sprite of height 640 they are 790 apart.
\<close>

theorem stored_extents_counterexample:
  "\<not> (50 \<le> pipe.height (Pipe_init stock 0 700) \<and> pipe.height (Pipe_init stock 0 700) < 350 \<and>
      bottom (Pipe_init stock 0 700) - top (Pipe_init stock 0 700) = 150)"
  by (simp add: Pipe_init_def Pipe_set_height_def stock_def randrange_def GAP_def Let_def)

text \<open>
  C3, amended. \<open>set_height\<close> (the same in both files) draws the height from the
  integers 50 to 349. \<open>top\<close> is where the upper sprite is drawn, so its lower edge
  \<open>top\<close> plus the sprite height is the drawn height, and \<open>bottom\<close> lies exactly 150
  below that edge; \<open>top\<close> and \<open>bottom\<close> themselves are 150 plus the sprite height
  apart. The same holds for a pipe as its constructor returns it.
\<close>

theorem set_height_gap:
  "(let p' = Pipe_set_height A g p in
      50 \<le> pipe.height p' \<and> pipe.height p' < 350 \<and>
      top p' + int (pipe_img_height A) = pipe.height p' \<and>
      bottom p' - (top p' + int (pipe_img_height A)) = 150 \<and>
      bottom p' - top p' = 150 + int (pipe_img_height A)) \<and>
   (let p' = Pipe_init A g x0 in
      pipe.x p' = x0 \<and> 50 \<le> pipe.height p' \<and> pipe.height p' < 350 \<and>
      bottom p' - (top p' + int (pipe_img_height A)) = 150 \<and>
      bottom p' - top p' = 150 + int (pipe_img_height A))"
  by (simp add: Pipe_init_def Pipe_set_height_def randrange_def GAP_def Let_def)

section \<open>Ground\<close>

text \<open>
  C5. After any number of calls of \<open>Base.move\<close> (the same in both files) on a freshly
  constructed ground, one of the two segments starts exactly one segment width to the
  right of the other, so the segments are adjacent.
\<close>

theorem ground_segments_adjacent:
  "let b = (Base_move A ^^ n) (Base_init A y0); W = int (base_img_width A)
   in x1 b = x2 b + W \<or> x2 b = x1 b + W"
proof -
  have "x1 ((Base_move A ^^ n) (Base_init A y0)) =
          x2 ((Base_move A ^^ n) (Base_init A y0)) + int (base_img_width A) \<or>
        x2 ((Base_move A ^^ n) (Base_init A y0)) =
          x1 ((Base_move A ^^ n) (Base_init A y0)) + int (base_img_width A)"
  proof (induction n)
    case 0
    show ?case by (simp add: Base_init_def)
  next
    case (Suc n)
    then show ?case by (auto simp: Base_move_def Let_def)
  qed
  then show ?thesis by (simp add: Let_def)
qed

section \<open>The evaluation loop: one tick\<close>

lemma fold_enumerate_prefix:
  fixes body :: "nat \<Rightarrow> 'b list \<times> 'f list \<Rightarrow> 'b list \<times> 'f list"
  assumes loc: "\<And>j bs fs. body j (bs, fs) = (bs[j := B j (bs ! j) (fs ! j)], fs[j := F j (bs ! j) (fs ! j)])"
    and len: "n \<le> length bs" "length fs = length bs"
  shows "fold body [0..<n] (bs, fs) =
    (map (\<lambda>j. B j (bs ! j) (fs ! j)) [0..<n] @ drop n bs,
     map (\<lambda>j. F j (bs ! j) (fs ! j)) [0..<n] @ drop n fs)"
  using len
proof (induction n)
  case 0
  then show ?case by simp
next
  case (Suc n)
  then have n: "n < length bs" "n < length fs" by simp_all
  have db: "drop n bs = bs ! n # drop (Suc n) bs" and df: "drop n fs = fs ! n # drop (Suc n) fs"
    using n by (simp_all add: Cons_nth_drop_Suc)
  from Suc have IH: "fold body [0..<n] (bs, fs) =
    (map (\<lambda>j. B j (bs ! j) (fs ! j)) [0..<n] @ drop n bs,
     map (\<lambda>j. F j (bs ! j) (fs ! j)) [0..<n] @ drop n fs)" by simp
  show ?case
    by (simp add: IH loc nth_append list_update_append db df)
qed

lemma fold_enumerate:
  fixes body :: "nat \<Rightarrow> 'b list \<times> 'f list \<Rightarrow> 'b list \<times> 'f list"
  assumes loc: "\<And>j bs fs. body j (bs, fs) = (bs[j := B j (bs ! j) (fs ! j)], fs[j := F j (bs ! j) (fs ! j)])"
    and len: "length fs = length bs"
  shows "fold body [0..<length bs] (bs, fs) =
    (map (\<lambda>j. B j (bs ! j) (fs ! j)) [0..<length bs],
     map (\<lambda>j. F j (bs ! j) (fs ! j)) [0..<length bs])"
  using fold_enumerate_prefix[of body B F "length bs" bs fs, OF loc] len by simp

lemma only_deaths_refl: "only_deaths bs fs bs fs"
  by (simp add: only_deaths_def)

lemma only_deathsD:
  assumes "only_deaths bs fs bs' fs'"
  shows "length bs' = length bs" "length fs' = length fs"
    "i < length bs \<Longrightarrow> bs' ! i = (bs ! i)\<lparr>alive := alive (bs' ! i)\<rparr>"
    "i < length bs \<Longrightarrow> alive (bs' ! i) \<Longrightarrow> alive (bs ! i)"
    "i < length bs \<Longrightarrow> fs' ! i = fs ! i - (if alive (bs ! i) \<and> \<not> alive (bs' ! i) then 1 else 0)"
  using assms unfolding only_deaths_def by blast+

lemma only_deaths_trans:
  assumes "only_deaths bs fs bs1 fs1" "only_deaths bs1 fs1 bs2 fs2"
  shows "only_deaths bs fs bs2 fs2"
  unfolding only_deaths_def
proof (intro conjI allI impI)
  show "length bs2 = length bs" "length fs2 = length fs"
    using only_deathsD(1,2)[OF assms(1)] only_deathsD(1,2)[OF assms(2)] by simp_all
next
  fix i assume i: "i < length bs"
  then have i1: "i < length bs1" using only_deathsD(1)[OF assms(1)] by simp
  note a = only_deathsD(3-5)[OF assms(1) i]
  note b = only_deathsD(3-5)[OF assms(2) i1]
  have "bs2 ! i = (bs1 ! i)\<lparr>alive := alive (bs2 ! i)\<rparr>" by (rule b(1))
  also have "\<dots> = ((bs ! i)\<lparr>alive := alive (bs1 ! i)\<rparr>)\<lparr>alive := alive (bs2 ! i)\<rparr>"
    using a(1) by simp
  finally show "bs2 ! i = (bs ! i)\<lparr>alive := alive (bs2 ! i)\<rparr>" by simp
  show "alive (bs ! i)" if "alive (bs2 ! i)" using that a(2) b(2) by blast
  show "fs2 ! i = fs ! i - (if alive (bs ! i) \<and> \<not> alive (bs2 ! i) then 1 else 0)"
  proof (cases "alive (bs1 ! i)")
    case True
    then have "alive (bs ! i)" by (rule a(2))
    with True a(3) b(3) show ?thesis by simp
  next
    case False
    then have "\<not> alive (bs2 ! i)" using b(2) by blast
    with False a(3) b(3) show ?thesis by simp
  qed
qed

lemma kill_fold:
  fixes body :: "nat \<Rightarrow> neat_bird list \<times> real list \<Rightarrow> neat_bird list \<times> real list"
  assumes loc: "\<And>j bs fs. body j (bs, fs) =
      (bs[j := (if alive (bs ! j) \<and> P (bs ! j) then (bs ! j)\<lparr>alive := False\<rparr> else bs ! j)],
       fs[j := (if alive (bs ! j) \<and> P (bs ! j) then fs ! j - 1 else fs ! j)])"
    and len: "length fs = length bs"
    and res: "fold body [0..<length bs] (bs, fs) = (bs', fs')"
  shows "only_deaths bs fs bs' fs'"
proof -
  have bs': "bs' = map (\<lambda>j. if alive (bs ! j) \<and> P (bs ! j) then (bs ! j)\<lparr>alive := False\<rparr> else bs ! j) [0..<length bs]"
    and fs': "fs' = map (\<lambda>j. if alive (bs ! j) \<and> P (bs ! j) then fs ! j - 1 else fs ! j) [0..<length bs]"
    using res unfolding fold_enumerate[of body, OF loc len] by simp_all
  show ?thesis
    unfolding only_deaths_def
  proof (intro conjI allI impI)
    show "length bs' = length bs" by (simp add: bs')
    show "length fs' = length fs" by (simp add: fs' len)
  next
    fix i assume i: "i < length bs"
    then have b: "bs' ! i = (if alive (bs ! i) \<and> P (bs ! i) then (bs ! i)\<lparr>alive := False\<rparr> else bs ! i)"
      and f: "fs' ! i = (if alive (bs ! i) \<and> P (bs ! i) then fs ! i - 1 else fs ! i)"
      by (simp_all add: bs' fs')
    show "bs' ! i = (bs ! i)\<lparr>alive := alive (bs' ! i)\<rparr>" unfolding b by simp
    show "alive (bs ! i)" if "alive (bs' ! i)" using that unfolding b by (simp split: if_splits)
    show "fs' ! i = fs ! i - (if alive (bs ! i) \<and> \<not> alive (bs' ! i) then 1 else 0)"
      unfolding b f by simp
  qed
qed

lemma hit_local:
  "hit A p j (bs, fs) =
    (bs[j := (if alive (bs ! j) \<and> Pipe_collide A p (bs ! j) then (bs ! j)\<lparr>alive := False\<rparr> else bs ! j)],
     fs[j := (if alive (bs ! j) \<and> Pipe_collide A p (bs ! j) then fs ! j - 1 else fs ! j)])"
  by (simp add: hit_def)

lemma out_of_bounds_local:
  "out_of_bounds A g j (bs, fs) =
    (bs[j := (if alive (bs ! j) \<and> beyond_bounds A g (bs ! j)
              then (bs ! j)\<lparr>alive := False\<rparr> else bs ! j)],
     fs[j := (if alive (bs ! j) \<and> beyond_bounds A g (bs ! j) then fs ! j - 1 else fs ! j)])"
  by (simp add: out_of_bounds_def Let_def)

lemmas hit_fold = kill_fold[of "hit A p" "Pipe_collide A p" for A p, OF hit_local]
lemmas out_of_bounds_fold = kill_fold[of "out_of_bounds A g" "beyond_bounds A g" for A g, OF out_of_bounds_local]


lemma think_bird_keeps [simp]:
  "alive (think_bird net lead b) = alive b" "bird.x (think_bird net lead b) = bird.x b"
  by (simp_all add: think_bird_def Bird_move_def Bird_jump_def Let_def)

lemma think_local:
  "think nets lead j (bs, fs) =
    (bs[j := (if alive (bs ! j) then think_bird (nets ! j) lead (bs ! j) else bs ! j)],
     fs[j := (if alive (bs ! j) then fs ! j + 0.1 else fs ! j)])"
  by (simp add: think_def think_bird_def Let_def)

lemma think_fold:
  assumes len: "length fs = length bs"
    and res: "fold (think nets lead) [0..<length bs] (bs, fs) = (bs', fs')"
  shows "length bs' = length bs" "length fs' = length fs"
    "i < length bs \<Longrightarrow> bs' ! i = (if alive (bs ! i) then think_bird (nets ! i) lead (bs ! i) else bs ! i)"
    "i < length bs \<Longrightarrow> fs' ! i = fs ! i + (if alive (bs ! i) then 0.1 else 0)"
  using res unfolding fold_enumerate[of "think nets lead", OF think_local len]
  by (auto simp: len)

lemma Pipe_move_simps [simp]:
  "passed (Pipe_move p) = passed p" "pipe.x (Pipe_move p) = pipe.x p - 5"
  by (simp_all add: Pipe_move_def Pipe_VEL_def)

lemma cross_simps [simp]:
  "pipe.x (cross x0 p) = pipe.x p" "passed (cross x0 p) = (passed p \<or> pipe.x p < x0)"
  by (auto simp: cross_def)

lemma pipe_body_eq:
  assumes hits: "fold (hit A (Pipe_move p)) [0..<length bs] (bs, fs) = (bs1, fs1)"
  shows "pipe_body A p (done, bs, fs, ap, rm) =
    (done @ [cross (bird.x (bs1 ! 0)) (Pipe_move p)], bs1, fs1,
     ap \<or> (\<not> passed p \<and> pipe.x p - 5 < bird.x (bs1 ! 0)),
     rm @ filter (\<lambda>q. pipe.x q + int (pipe_img_width A) < 0) [cross (bird.x (bs1 ! 0)) (Pipe_move p)])"
  by (simp add: pipe_body_def hits cross_def Let_def)

lemma only_deaths_x:
  assumes "only_deaths bs fs bs' fs'" "i < length bs"
  shows "bird.x (bs' ! i) = bird.x (bs ! i)"
  by (subst only_deathsD(3)[OF assms]) simp

lemma pipe_loop:
  assumes "length fs = length bs" "bs \<noteq> []"
    and "fold (pipe_body A) ps (done, bs, fs, ap, rm) = (ps', bs', fs', ap', rm')"
  shows "only_deaths bs fs bs' fs' \<and>
    ps' = done @ map (\<lambda>p. cross (bird.x (bs ! 0)) (Pipe_move p)) ps \<and>
    ap' = (ap \<or> (\<exists>p\<in>set ps. \<not> passed p \<and> pipe.x p - 5 < bird.x (bs ! 0))) \<and>
    rm' = rm @ filter (\<lambda>q. pipe.x q + int (pipe_img_width A) < 0)
                 (map (\<lambda>p. cross (bird.x (bs ! 0)) (Pipe_move p)) ps)"
  using assms
proof (induction ps arbitrary: "done" bs fs ap rm)
  case Nil
  then show ?case by (simp add: only_deaths_refl)
next
  case (Cons p ps)
  obtain bs1 fs1 where hits: "fold (hit A (Pipe_move p)) [0..<length bs] (bs, fs) = (bs1, fs1)"
    by (cases "fold (hit A (Pipe_move p)) [0..<length bs] (bs, fs)") 
  have od: "only_deaths bs fs bs1 fs1" by (rule hit_fold[OF Cons.prems(1) hits])
  have pos: "0 < length bs" using Cons.prems(2) by simp
  have x0: "bird.x (bs1 ! 0) = bird.x (bs ! 0)" by (rule only_deaths_x[OF od pos])
  have len1: "length fs1 = length bs1" "bs1 \<noteq> []"
    using only_deathsD(1,2)[OF od] Cons.prems(1,2) by auto
  from Cons.prems(3) have
    "fold (pipe_body A) ps (done @ [cross (bird.x (bs ! 0)) (Pipe_move p)], bs1, fs1,
       ap \<or> (\<not> passed p \<and> pipe.x p - 5 < bird.x (bs ! 0)),
       rm @ filter (\<lambda>q. pipe.x q + int (pipe_img_width A) < 0) [cross (bird.x (bs ! 0)) (Pipe_move p)])
     = (ps', bs', fs', ap', rm')"
    by (simp only: fold_simps pipe_body_eq[OF hits] x0)
  from Cons.IH[OF len1 this] od
  show ?case
    by (auto simp: x0 intro: only_deaths_trans)
qed

lemma tick_ContinueE:
  assumes "tick A nets inp s = Continue s'"
  obtains bs1 fs1 ps2 bs2 fs2 ap rm bs3 fs3 where
    "\<not> quit inp" "filter alive (birds s) \<noteq> []" "pipe_ind A s < length (pipes s)"
    "fold (think nets (pipes s ! pipe_ind A s)) [0..<length (birds s)] (birds s, ge s) = (bs1, fs1)"
    "fold (pipe_body A) (pipes s) ([], bs1, fs1, False, []) = (ps2, bs2, fs2, ap, rm)"
    "fold (out_of_bounds A (base s)) [0..<length bs2]
       (bs2, if ap then map (\<lambda>fitness. fitness + 5) fs2 else fs2) = (bs3, fs3)"
    "s' = s\<lparr>birds := draw_window bs3, ge := fs3,
            pipes := fold remove1 rm
              (if ap then ps2 @ [Pipe_init A (entropy inp) (WIN_WIDTH + 100)] else ps2),
            base := Base_move A (base s),
            score := (if ap then score s + 1 else score s)\<rparr>"
proof -
  from assms have c: "\<not> quit inp" "filter alive (birds s) \<noteq> []" "pipe_ind A s < length (pipes s)"
    by (auto simp: tick_def Let_def split: if_splits)
  obtain bs1 fs1 where t: "fold (think nets (pipes s ! pipe_ind A s)) [0..<length (birds s)] (birds s, ge s) = (bs1, fs1)"
    by (cases "fold (think nets (pipes s ! pipe_ind A s)) [0..<length (birds s)] (birds s, ge s)")
  obtain ps2 bs2 fs2 ap rm where p: "fold (pipe_body A) (pipes s) ([], bs1, fs1, False, []) = (ps2, bs2, fs2, ap, rm)"
    by (cases "fold (pipe_body A) (pipes s) ([], bs1, fs1, False, [])")
  obtain bs3 fs3 where b: "fold (out_of_bounds A (base s)) [0..<length bs2]
       (bs2, if ap then map (\<lambda>fitness. fitness + 5) fs2 else fs2) = (bs3, fs3)"
    by (cases "fold (out_of_bounds A (base s)) [0..<length bs2]
       (bs2, if ap then map (\<lambda>fitness. fitness + 5) fs2 else fs2)")
  have "tick A nets inp s = Continue (s\<lparr>birds := draw_window bs3, ge := fs3,
            pipes := fold remove1 rm
              (if ap then ps2 @ [Pipe_init A (entropy inp) (WIN_WIDTH + 100)] else ps2),
            base := Base_move A (base s),
            score := (if ap then score s + 1 else score s)\<rparr>)"
    using c by (simp add: tick_def Let_def t p b)
  with assms have "s' = s\<lparr>birds := draw_window bs3, ge := fs3,
            pipes := fold remove1 rm
              (if ap then ps2 @ [Pipe_init A (entropy inp) (WIN_WIDTH + 100)] else ps2),
            base := Base_move A (base s),
            score := (if ap then score s + 1 else score s)\<rparr>" by simp
  with c t p b that show thesis by blast
qed

lemma tick_outcome:
  "(tick A nets inp s = SystemExit) = quit inp"
  "(tick A nets inp s = Break) = (\<not> quit inp \<and> filter alive (birds s) = [])"
  "(tick A nets inp s = Raise e) =
     (\<not> quit inp \<and> filter alive (birds s) \<noteq> [] \<and> length (pipes s) \<le> pipe_ind A s)"
  "(\<exists>s'. tick A nets inp s = Continue s') =
     (\<not> quit inp \<and> filter alive (birds s) \<noteq> [] \<and> pipe_ind A s < length (pipes s))"
  by (cases e; auto simp: tick_def Let_def split: prod.splits)+

lemma Bird_draw_keeps [simp]:
  "alive (Bird_draw b) = alive b" "bird.x (Bird_draw b) = bird.x b"
  by (simp_all add: Bird_draw_def Let_def)

lemma draw_window_nth:
  "i < length bs \<Longrightarrow> draw_window bs ! i = (if alive (bs ! i) then Bird_draw (bs ! i) else bs ! i)"
  by (simp add: draw_window_def)

lemma length_draw_window [simp]: "length (draw_window bs) = length bs"
  by (simp add: draw_window_def)

lemma same_alive:
  fixes b b' :: neat_bird
  assumes upd: "b' = b\<lparr>alive := alive b'\<rparr>" and eq: "alive b' = alive b"
  shows "b' = b"
proof -
  have "b\<lparr>alive := alive b'\<rparr> = b" by (simp add: eq)
  then show ?thesis by (subst upd) simp
qed

lemma tick_step:
  assumes t: "tick A nets inp s = Continue s'" and len: "length (ge s) = length (birds s)"
  shows "length (birds s') = length (birds s)" "length (ge s') = length (birds s)"
    "score s' = (if crossing s then score s + 1 else score s)"
    "gen s' = gen s"
    "i < length (birds s) \<Longrightarrow> alive (birds s' ! i) \<Longrightarrow> alive (birds s ! i)"
    "i < length (birds s) \<Longrightarrow> \<not> alive (birds s ! i) \<Longrightarrow> birds s' ! i = birds s ! i"
    "i < length (birds s) \<Longrightarrow> bird.x (birds s' ! i) = bird.x (birds s ! i)"
    "i < length (birds s) \<Longrightarrow>
       ge s' ! i = ge s ! i + (if alive (birds s ! i) then 0.1 else 0)
                   + (if crossing s then 5 else 0)
                   - (if alive (birds s ! i) \<and> \<not> alive (birds s' ! i) then 1 else 0)"
    "pipes s' =
       (let ps = map (\<lambda>p. cross (bird.x (birds s ! 0)) (Pipe_move p)) (pipes s)
        in fold remove1 (filter (\<lambda>q. pipe.x q + int (pipe_img_width A) < 0) ps)
             (if crossing s then ps @ [Pipe_init A (entropy inp) (WIN_WIDTH + 100)] else ps))"
proof -
  from t obtain bs1 fs1 ps2 bs2 fs2 ap rm bs3 fs3 where
    c: "filter alive (birds s) \<noteq> []"
    and th: "fold (think nets (pipes s ! pipe_ind A s)) [0..<length (birds s)] (birds s, ge s) = (bs1, fs1)"
    and pl: "fold (pipe_body A) (pipes s) ([], bs1, fs1, False, []) = (ps2, bs2, fs2, ap, rm)"
    and ob: "fold (out_of_bounds A (base s)) [0..<length bs2]
       (bs2, if ap then map (\<lambda>fitness. fitness + 5) fs2 else fs2) = (bs3, fs3)"
    and s': "s' = s\<lparr>birds := draw_window bs3, ge := fs3,
            pipes := fold remove1 rm
              (if ap then ps2 @ [Pipe_init A (entropy inp) (WIN_WIDTH + 100)] else ps2),
            base := Base_move A (base s),
            score := (if ap then score s + 1 else score s)\<rparr>"
    by (rule tick_ContinueE)
  let ?n = "length (birds s)"
  from c have ne: "birds s \<noteq> []" by auto
  note T = think_fold[OF len th]
  have l1: "length fs1 = length bs1" "bs1 \<noteq> []" using T(1,2) len ne by auto
  from pipe_loop[OF l1 pl]
  have od2: "only_deaths bs1 fs1 bs2 fs2"
    and ps2: "ps2 = map (\<lambda>p. cross (bird.x (bs1 ! 0)) (Pipe_move p)) (pipes s)"
    and ap: "ap = (\<exists>p\<in>set (pipes s). \<not> passed p \<and> pipe.x p - 5 < bird.x (bs1 ! 0))"
    and rm: "rm = filter (\<lambda>q. pipe.x q + int (pipe_img_width A) < 0)
                 (map (\<lambda>p. cross (bird.x (bs1 ! 0)) (Pipe_move p)) (pipes s))"
    by simp_all
  have x10: "bird.x (bs1 ! 0) = bird.x (birds s ! 0)"
    using T(3)[of 0] ne by simp
  have ap': "ap = crossing s" unfolding ap x10 crossing_def Pipe_VEL_def ..
  have l2: "length bs2 = ?n" "length fs2 = ?n"
    using only_deathsD(1,2)[OF od2] T(1,2) len by simp_all
  let ?fs2' = "if ap then map (\<lambda>fitness. fitness + 5) fs2 else fs2"
  have l2': "length ?fs2' = length bs2" using l2 by simp
  have od3: "only_deaths bs2 ?fs2' bs3 fs3"
    using out_of_bounds_fold[OF l2' ob] .
  have l3: "length bs3 = ?n" "length fs3 = ?n"
    using only_deathsD(1,2)[OF od3] l2 by simp_all
  show "length (birds s') = length (birds s)" "length (ge s') = length (birds s)"
    "gen s' = gen s"
    by (simp_all add: s' l3)
  show "score s' = (if crossing s then score s + 1 else score s)"
    by (simp add: s' ap')
  show "pipes s' =
       (let ps = map (\<lambda>p. cross (bird.x (birds s ! 0)) (Pipe_move p)) (pipes s)
        in fold remove1 (filter (\<lambda>q. pipe.x q + int (pipe_img_width A) < 0) ps)
             (if crossing s then ps @ [Pipe_init A (entropy inp) (WIN_WIDTH + 100)] else ps))"
    by (simp add: s' ap'[symmetric] rm ps2 x10 Let_def)
  {
    assume i: "i < ?n"
    then have i1: "i < length bs1" and i2: "i < length bs2" and i3: "i < length bs3"
      using T(1) l2 l3 by simp_all
    note a = only_deathsD(3-5)[OF od2 i1]
    note b = only_deathsD(3-5)[OF od3 i2]
    have d: "birds s' ! i = (if alive (bs3 ! i) then Bird_draw (bs3 ! i) else bs3 ! i)"
      by (simp add: s' draw_window_nth[OF i3])
    have al1: "alive (bs1 ! i) = alive (birds s ! i)" using T(3)[OF i] by simp
    have al': "alive (birds s' ! i) = alive (bs3 ! i)" unfolding d by simp
    show "alive (birds s ! i)" if "alive (birds s' ! i)"
      using that al' al1 a(2) b(2) by blast
    show "birds s' ! i = birds s ! i" if dead: "\<not> alive (birds s ! i)"
    proof -
      have 1: "bs1 ! i = birds s ! i" using T(3)[OF i] dead by simp
      have "\<not> alive (bs2 ! i)" using a(2) al1 dead by blast
      have 2: "bs2 ! i = birds s ! i"
        using same_alive[OF a(1)] \<open>\<not> alive (bs2 ! i)\<close> al1 dead 1 by simp
      have "\<not> alive (bs3 ! i)" using b(2) \<open>\<not> alive (bs2 ! i)\<close> by blast
      have 3: "bs3 ! i = birds s ! i"
        using same_alive[OF b(1)] \<open>\<not> alive (bs3 ! i)\<close> \<open>\<not> alive (bs2 ! i)\<close> 2 by simp
      show ?thesis unfolding d using 3 dead by simp
    qed
    have x1: "bird.x (bs1 ! i) = bird.x (birds s ! i)" using T(3)[OF i] by simp
    have x2: "bird.x (bs2 ! i) = bird.x (bs1 ! i)" by (rule only_deaths_x[OF od2 i1])
    have x3: "bird.x (bs3 ! i) = bird.x (bs2 ! i)" by (rule only_deaths_x[OF od3 i2])
    show "bird.x (birds s' ! i) = bird.x (birds s ! i)"
      unfolding d using x1 x2 x3 by simp
    have f1: "fs1 ! i = ge s ! i + (if alive (birds s ! i) then 0.1 else 0)" by (rule T(4)[OF i])
    have f2: "fs2 ! i = fs1 ! i - (if alive (bs1 ! i) \<and> \<not> alive (bs2 ! i) then 1 else 0)" by (rule a(3))
    have f2': "?fs2' ! i = fs2 ! i + (if crossing s then 5 else 0)"
      using i l2 by (simp add: ap')
    have f3: "fs3 ! i = ?fs2' ! i - (if alive (bs2 ! i) \<and> \<not> alive (bs3 ! i) then 1 else 0)" by (rule b(3))
    have g: "ge s' ! i = fs3 ! i" by (simp add: s')
    show "ge s' ! i = ge s ! i + (if alive (birds s ! i) then 0.1 else 0)
                   + (if crossing s then 5 else 0)
                   - (if alive (birds s ! i) \<and> \<not> alive (birds s' ! i) then 1 else 0)"
    proof (cases "alive (bs2 ! i)")
      case True
      then have "alive (bs1 ! i)" by (rule a(2))
      with True show ?thesis unfolding g f3 f2' f2 f1 al' al1[symmetric] by simp
    next
      case False
      then have "\<not> alive (bs3 ! i)" using b(2) by blast
      with False show ?thesis unfolding g f3 f2' f2 f1 al' al1[symmetric] by simp
    qed
  }
qed

section \<open>The evaluation loop: runs\<close>

lemma eval_loop_Cons_state:
  assumes "eval_loop A nets (inp # rest) s = Running s' \<or> eval_loop A nets (inp # rest) s = Returned s'"
  shows "(\<exists>s1. tick A nets inp s = Continue s1 \<and>
            (eval_loop A nets rest s1 = Running s' \<or> eval_loop A nets rest s1 = Returned s')) \<or>
         (tick A nets inp s = Break \<and> s' = s)"
  using assms by (cases "tick A nets inp s") auto

lemma run_facts:
  assumes "length (ge s) = length (birds s)" "i < length (birds s)"
    and "eval_loop A nets inps s = Running s' \<or> eval_loop A nets inps s = Returned s'"
  shows "length (birds s') = length (birds s) \<and> length (ge s') = length (birds s) \<and>
    (alive (birds s' ! i) \<longrightarrow> alive (birds s ! i)) \<and>
    (\<not> alive (birds s ! i) \<longrightarrow> birds s' ! i = birds s ! i \<and> alive_ticks A nets inps s i = 0) \<and>
    bird.x (birds s' ! i) = bird.x (birds s ! i) \<and>
    ge s' ! i = ge s ! i + 0.1 * real (alive_ticks A nets inps s i)
                + 5 * of_int (score s' - score s)
                - (if alive (birds s ! i) \<and> \<not> alive (birds s' ! i) then 1 else 0)"
  using assms
proof (induction inps arbitrary: s)
  case Nil
  then show ?case by simp
next
  case (Cons inp rest)
  from eval_loop_Cons_state[OF Cons.prems(3)]
  consider (brk) "tick A nets inp s = Break" "s' = s"
    | (cont) s1 where "tick A nets inp s = Continue s1"
        "eval_loop A nets rest s1 = Running s' \<or> eval_loop A nets rest s1 = Returned s'"
    by blast
  then show ?case
  proof cases
    case brk
    have k0: "alive_ticks A nets (inp # rest) s i = 0" by (simp add: brk(1))
    show ?thesis unfolding brk(2) k0 using Cons.prems(1) by simp
  next
    case cont
    note t = cont(1) and r = cont(2)
    note st = tick_step[OF t Cons.prems(1)]
    have len1: "length (ge s1) = length (birds s1)" "i < length (birds s1)"
      using st(1,2) Cons.prems(2) by simp_all
    note IH = Cons.IH[OF len1 r]
    note ih1 = IH[THEN conjunct1]
    note ih2 = IH[THEN conjunct2, THEN conjunct1]
    note m2 = IH[THEN conjunct2, THEN conjunct2, THEN conjunct1]
    note ih4 = IH[THEN conjunct2, THEN conjunct2, THEN conjunct2, THEN conjunct1]
    note ih5 = IH[THEN conjunct2, THEN conjunct2, THEN conjunct2, THEN conjunct2, THEN conjunct1]
    note g2 = IH[THEN conjunct2, THEN conjunct2, THEN conjunct2, THEN conjunct2, THEN conjunct2]
    note i = Cons.prems(2)
    have k: "alive_ticks A nets (inp # rest) s i =
        (if alive (birds s ! i) then 1 else 0) + alive_ticks A nets rest s1 i"
      by (simp add: t)
    have sc: "score s1 - score s = (if crossing s then 1 else 0)" using st(3) by simp
    have m1: "alive (birds s1 ! i) \<longrightarrow> alive (birds s ! i)" using st(5)[OF i] by blast
    have d1: "\<not> alive (birds s ! i) \<Longrightarrow> birds s1 ! i = birds s ! i" by (rule st(6)[OF i])
    show ?thesis
    proof (intro conjI impI)
      show "length (birds s') = length (birds s)" "length (ge s') = length (birds s)"
        using ih1 ih2 st(1) by simp_all
      show "alive (birds s ! i)" if "alive (birds s' ! i)"
        using that m1 m2 by blast
      show "birds s' ! i = birds s ! i" if "\<not> alive (birds s ! i)"
        using d1[OF that] ih4 that by simp
      show "alive_ticks A nets (inp # rest) s i = 0" if "\<not> alive (birds s ! i)"
        using d1[OF that] ih4 that k by simp
      show "bird.x (birds s' ! i) = bird.x (birds s ! i)"
        using ih5 st(7)[OF i] by simp
      have g1: "ge s1 ! i = ge s ! i + (if alive (birds s ! i) then 0.1 else 0)
                   + (if crossing s then 5 else 0)
                   - (if alive (birds s ! i) \<and> \<not> alive (birds s1 ! i) then 1 else 0)"
        by (rule st(8)[OF i])
      have pen: "(if alive (birds s ! i) \<and> \<not> alive (birds s1 ! i) then 1 else 0 :: real) +
                 (if alive (birds s1 ! i) \<and> \<not> alive (birds s' ! i) then 1 else 0) =
                 (if alive (birds s ! i) \<and> \<not> alive (birds s' ! i) then 1 else 0)"
      proof (cases "alive (birds s1 ! i)")
        case True
        then have "alive (birds s ! i)" using m1 by blast
        with True show ?thesis by simp
      next
        case False
        then have "\<not> alive (birds s' ! i)" using m2 by blast
        with False show ?thesis by simp
      qed
      have scs: "(5::real) * of_int (score s' - score s) =
                 5 * of_int (score s' - score s1) + (if crossing s then 5 else 0)"
        using sc by (cases "crossing s") simp_all
      have kk: "(0.1::real) * real (alive_ticks A nets (inp # rest) s i) =
                 (if alive (birds s ! i) then 0.1 else 0) + 0.1 * real (alive_ticks A nets rest s1 i)"
        unfolding k by simp
      show "ge s' ! i = ge s ! i + 0.1 * real (alive_ticks A nets (inp # rest) s i)
                + 5 * of_int (score s' - score s)
                - (if alive (birds s ! i) \<and> \<not> alive (birds s' ! i) then 1 else 0)"
        unfolding g2 g1 scs kk pen[symmetric] by simp
    qed
  qed
qed

lemma kill_fold_alive:
  fixes body :: "nat \<Rightarrow> neat_bird list \<times> real list \<Rightarrow> neat_bird list \<times> real list"
  assumes loc: "\<And>j bs fs. body j (bs, fs) =
      (bs[j := (if alive (bs ! j) \<and> P (bs ! j) then (bs ! j)\<lparr>alive := False\<rparr> else bs ! j)],
       fs[j := (if alive (bs ! j) \<and> P (bs ! j) then fs ! j - 1 else fs ! j)])"
    and len: "length fs = length bs"
    and res: "fold body [0..<length bs] (bs, fs) = (bs', fs')"
    and i: "i < length bs"
  shows "alive (bs' ! i) = (alive (bs ! i) \<and> \<not> P (bs ! i))"
proof -
  have bs': "bs' = map (\<lambda>j. if alive (bs ! j) \<and> P (bs ! j) then (bs ! j)\<lparr>alive := False\<rparr> else bs ! j) [0..<length bs]"
    using res unfolding fold_enumerate[of body, OF loc len] by simp
  have b: "bs' ! i = (if alive (bs ! i) \<and> P (bs ! i) then (bs ! i)\<lparr>alive := False\<rparr> else bs ! i)"
    using i by (simp add: bs')
  show ?thesis unfolding b by (cases "alive (bs ! i)"; cases "P (bs ! i)"; simp)
qed

lemma Pipe_collide_alive [simp]: "Pipe_collide A q (b\<lparr>alive := a\<rparr>) = Pipe_collide A q b"
  by (simp add: Pipe_collide_def)

lemma beyond_bounds_alive [simp]: "beyond_bounds A g (b\<lparr>alive := a\<rparr>) = beyond_bounds A g b"
  by (simp add: beyond_bounds_def)

lemma pipe_loop_alive:
  assumes "length fs = length bs" "i < length bs"
    and "fold (pipe_body A) ps (done, bs, fs, ap, rm) = (ps', bs', fs', ap', rm')"
  shows "alive (bs' ! i) =
    (alive (bs ! i) \<and> \<not> (\<exists>p\<in>set ps. Pipe_collide A (Pipe_move p) (bs ! i)))"
  using assms
proof (induction ps arbitrary: "done" bs fs ap rm)
  case Nil
  then show ?case by simp
next
  case (Cons p ps)
  obtain bs1 fs1 where hits: "fold (hit A (Pipe_move p)) [0..<length bs] (bs, fs) = (bs1, fs1)"
    by (cases "fold (hit A (Pipe_move p)) [0..<length bs] (bs, fs)")
  have od: "only_deaths bs fs bs1 fs1" by (rule hit_fold[OF Cons.prems(1) hits])
  have al: "alive (bs1 ! i) = (alive (bs ! i) \<and> \<not> Pipe_collide A (Pipe_move p) (bs ! i))"
    by (rule kill_fold_alive[of "hit A (Pipe_move p)", OF hit_local Cons.prems(1) hits Cons.prems(2)])
  have len1: "length fs1 = length bs1" "i < length bs1"
    using only_deathsD(1,2)[OF od] Cons.prems(1,2) by simp_all
  have same: "Pipe_collide A q (bs1 ! i) = Pipe_collide A q (bs ! i)" for q
    by (subst only_deathsD(3)[OF od Cons.prems(2)]) simp
  from Cons.prems(3) obtain d' ap1 rm1 where
    "fold (pipe_body A) ps (d', bs1, fs1, ap1, rm1) = (ps', bs', fs', ap', rm')"
    by (simp only: fold_simps pipe_body_eq[OF hits]) 
  from Cons.IH[OF len1 this]
  have "alive (bs' ! i) =
    (alive (bs1 ! i) \<and> \<not> (\<exists>p\<in>set ps. Pipe_collide A (Pipe_move p) (bs1 ! i)))" .
  then show ?case unfolding al same by auto
qed

lemma tick_alive:
  assumes t: "tick A nets inp s = Continue s'" and len: "length (ge s) = length (birds s)"
    and i: "i < length (birds s)"
  shows "alive (birds s' ! i) =
    (alive (birds s ! i) \<and> \<not> hits_pipe A nets s i \<and> \<not> leaves_bounds A nets s i)"
proof -
  from t obtain bs1 fs1 ps2 bs2 fs2 ap rm bs3 fs3 where
    th: "fold (think nets (pipes s ! pipe_ind A s)) [0..<length (birds s)] (birds s, ge s) = (bs1, fs1)"
    and pl: "fold (pipe_body A) (pipes s) ([], bs1, fs1, False, []) = (ps2, bs2, fs2, ap, rm)"
    and ob: "fold (out_of_bounds A (base s)) [0..<length bs2]
       (bs2, if ap then map (\<lambda>fitness. fitness + 5) fs2 else fs2) = (bs3, fs3)"
    and s': "s' = s\<lparr>birds := draw_window bs3, ge := fs3,
            pipes := fold remove1 rm
              (if ap then ps2 @ [Pipe_init A (entropy inp) (WIN_WIDTH + 100)] else ps2),
            base := Base_move A (base s),
            score := (if ap then score s + 1 else score s)\<rparr>"
    by (rule tick_ContinueE)
  let ?tb = "think_bird (nets ! i) (pipes s ! pipe_ind A s) (birds s ! i)"
  note T = think_fold[OF len th]
  have l1: "length fs1 = length bs1" "i < length bs1" using T(1,2) len i by simp_all
  have b1: "bs1 ! i = (if alive (birds s ! i) then ?tb else birds s ! i)" by (rule T(3)[OF i])
  have a2: "alive (bs2 ! i) =
    (alive (bs1 ! i) \<and> \<not> (\<exists>p\<in>set (pipes s). Pipe_collide A (Pipe_move p) (bs1 ! i)))"
    by (rule pipe_loop_alive[OF l1 pl])
  have od2: "only_deaths bs1 fs1 bs2 fs2"
  proof -
    have "bs1 \<noteq> []" using l1(2) by auto
    from pipe_loop[OF l1(1) this pl] show ?thesis by simp
  qed
  have l2: "length bs2 = length bs1" "length fs2 = length fs1" using only_deathsD(1,2)[OF od2] .
  let ?fs2' = "if ap then map (\<lambda>fitness. fitness + 5) fs2 else fs2"
  have l2': "length ?fs2' = length bs2" "i < length bs2" using l2 l1 by simp_all
  have a3: "alive (bs3 ! i) = (alive (bs2 ! i) \<and> \<not> beyond_bounds A (base s) (bs2 ! i))"
    by (rule kill_fold_alive[of "out_of_bounds A (base s)", OF out_of_bounds_local l2'(1) ob l2'(2)])
  have bb: "beyond_bounds A (base s) (bs2 ! i) = beyond_bounds A (base s) (bs1 ! i)"
    by (subst only_deathsD(3)[OF od2 l1(2)]) simp
  have od3: "only_deaths bs2 ?fs2' bs3 fs3" by (rule out_of_bounds_fold[OF l2'(1) ob])
  have i3: "i < length bs3" using only_deathsD(1)[OF od3] l2'(2) by simp
  have d: "alive (birds s' ! i) = alive (bs3 ! i)"
    by (simp add: s' draw_window_nth[OF i3])
  show ?thesis
  proof (cases "alive (birds s ! i)")
    case True
    then have b1': "bs1 ! i = ?tb" using b1 by simp
    show ?thesis unfolding d a3 a2 bb b1' hits_pipe_def leaves_bounds_def using True by auto
  next
    case False
    then have "\<not> alive (bs1 ! i)" using b1 by simp
    then show ?thesis unfolding d a3 a2 using False by simp
  qed
qed

lemma run_deaths:
  assumes "length (ge s) = length (birds s)" "i < length (birds s)"
    and "eval_loop A nets inps s = Running s' \<or> eval_loop A nets inps s = Returned s'"
  shows "(alive (birds s ! i) \<and> \<not> alive (birds s' ! i)) =
         (collides A nets inps s i \<or> boundary_death A nets inps s i)"
  using assms
proof (induction inps arbitrary: s)
  case Nil
  then show ?case by simp
next
  case (Cons inp rest)
  from eval_loop_Cons_state[OF Cons.prems(3)]
  consider (brk) "tick A nets inp s = Break" "s' = s"
    | (cont) s1 where "tick A nets inp s = Continue s1"
        "eval_loop A nets rest s1 = Running s' \<or> eval_loop A nets rest s1 = Returned s'"
    by blast
  then show ?case
  proof cases
    case brk
    then show ?thesis by simp
  next
    case cont
    note t = cont(1) and r = cont(2)
    note st = tick_step[OF t Cons.prems(1)]
    have len1: "length (ge s1) = length (birds s1)" "i < length (birds s1)"
      using st(1,2) Cons.prems(2) by simp_all
    note IH = Cons.IH[OF len1 r]
    note mono = run_facts[OF len1 r, THEN conjunct2, THEN conjunct2, THEN conjunct1]
    note a1 = tick_alive[OF t Cons.prems(1,2)]
    have c: "collides A nets (inp # rest) s i = (hits_pipe A nets s i \<or> collides A nets rest s1 i)"
      and b: "boundary_death A nets (inp # rest) s i =
              (leaves_bounds A nets s i \<or> boundary_death A nets rest s1 i)"
      by (simp_all add: t)
    have h: "hits_pipe A nets s i \<longrightarrow> alive (birds s ! i)"
      and l: "leaves_bounds A nets s i \<longrightarrow> alive (birds s ! i)"
      by (simp_all add: hits_pipe_def leaves_bounds_def)
    show ?thesis unfolding c b using IH mono a1 h l by blast
  qed
qed

lemma returned_all_dead:
  "eval_loop A nets inps s = Returned s' \<Longrightarrow> filter alive (birds s') = []"
proof (induction inps arbitrary: s)
  case Nil
  then show ?case by simp
next
  case (Cons inp rest)
  show ?case
  proof (cases "tick A nets inp s")
    case (Continue s1)
    with Cons.prems have "eval_loop A nets rest s1 = Returned s'" by simp
    then show ?thesis by (rule Cons.IH)
  next
    case Break
    with Cons.prems have "s' = s" by simp
    with Break show ?thesis by (simp add: tick_outcome(2))
  next
    case SystemExit
    with Cons.prems show ?thesis by simp
  next
    case (Raise e)
    with Cons.prems show ?thesis by simp
  qed
qed

lemma generation_start_simps [simp]:
  "length (birds (generation_start A nets GEN g0)) = length nets"
  "length (ge (generation_start A nets GEN g0)) = length nets"
  "i < length nets \<Longrightarrow> alive (birds (generation_start A nets GEN g0) ! i)"
  "i < length nets \<Longrightarrow> ge (generation_start A nets GEN g0) ! i = 0"
  "i < length nets \<Longrightarrow> bird.x (birds (generation_start A nets GEN g0) ! i) = 230"
  "score (generation_start A nets GEN g0) = 0"
  "pipes (generation_start A nets GEN g0) = [Pipe_init A g0 700]"
  by (simp_all add: generation_start_def Bird_init_def)

lemma think_fold_other_net:
  assumes len: "length fs = length bs" and dead: "\<not> alive (bs ! i)"
  shows "fold (think (nets[i := net']) lead) [0..<length bs] (bs, fs) =
         fold (think nets lead) [0..<length bs] (bs, fs)"
proof -
  have "(if alive (bs ! j) then think_bird (nets[i := net'] ! j) lead (bs ! j) else bs ! j) =
        (if alive (bs ! j) then think_bird (nets ! j) lead (bs ! j) else bs ! j)" for j
  proof (cases "j = i")
    case True
    with dead show ?thesis by simp
  next
    case False
    then show ?thesis by simp
  qed
  then show ?thesis
    unfolding fold_enumerate[of "think (nets[i := net']) lead", OF think_local len]
      fold_enumerate[of "think nets lead", OF think_local len]
    by simp
qed

lemma tick_other_net:
  assumes len: "length (ge s) = length (birds s)" and dead: "\<not> alive (birds s ! i)"
  shows "tick A (nets[i := net']) inp s = tick A nets inp s"
  unfolding tick_def think_fold_other_net[OF len dead] ..

lemma eval_loop_other_net:
  assumes "length (ge s) = length (birds s)" "i < length (birds s)" "\<not> alive (birds s ! i)"
  shows "eval_loop A (nets[i := net']) inps s = eval_loop A nets inps s"
  using assms
proof (induction inps arbitrary: s)
  case Nil
  show ?case by simp
next
  case (Cons inp rest)
  note eq = tick_other_net[OF Cons.prems(1,3), of A nets net' inp]
  show ?case
  proof (cases "tick A nets inp s")
    case (Continue s1)
    note st = tick_step[OF Continue Cons.prems(1)]
    have "length (ge s1) = length (birds s1)" "i < length (birds s1)" "\<not> alive (birds s1 ! i)"
      using st(1,2) Cons.prems(2,3) st(6)[OF Cons.prems(2,3)] by simp_all
    from Cons.IH[OF this] show ?thesis by (simp add: eq Continue)
  next
    case Break
    then show ?thesis by (simp add: eq)
  next
    case SystemExit
    then show ?thesis by (simp add: eq)
  next
    case (Raise e)
    then show ?thesis by (simp add: eq)
  qed
qed

lemma fold_remove1_snoc:
  "n \<notin> set rs \<Longrightarrow> fold remove1 rs (xs @ [n]) = fold remove1 rs xs @ [n]"
proof (induction rs arbitrary: xs)
  case Nil
  show ?case by simp
next
  case (Cons r rs)
  then have ne: "r \<noteq> n" and rest: "n \<notin> set rs" by auto
  have "remove1 r (xs @ [n]) = remove1 r xs @ [n]"
    using ne by (simp add: remove1_append remove1_idem)
  then show ?case using Cons.IH[OF rest] by simp
qed

lemma fold_remove1_keeps:
  "q \<in> set xs \<Longrightarrow> q \<notin> set (fold remove1 rs xs) \<Longrightarrow> q \<in> set rs"
proof (induction rs arbitrary: xs)
  case Nil
  then show ?case by simp
next
  case (Cons r rs)
  show ?case
  proof (cases "q = r")
    case True
    then show ?thesis by simp
  next
    case False
    then have "q \<in> set (remove1 r xs)" using Cons.prems(1) by simp
    from Cons.IH[OF this] Cons.prems(2) show ?thesis by simp
  qed
qed

lemma Pipe_init_simps [simp]:
  "pipe.x (Pipe_init A g x0) = x0" "passed (Pipe_init A g x0) = False"
  by (simp_all add: Pipe_init_def Pipe_set_height_def Let_def)

lemma pipe_ind_bound:
  "pipe_ind A s \<le> 1" "pipe_ind A s = 1 \<Longrightarrow> 2 \<le> length (pipes s)"
  "pipes s \<noteq> [] \<Longrightarrow> pipe_ind A s < length (pipes s)"
proof -
  let ?c = "length (pipes s) > 1 \<and>
     bird.x (filter alive (birds s) ! 0) > pipe.x (pipes s ! 0) + int (pipe_img_width A)"
  have eq: "pipe_ind A s = (if ?c then 1 else 0)" by (simp add: pipe_ind_def Let_def)
  have eq1: "pipe_ind A s = 1" if "?c" unfolding eq using that by (rule if_P)
  have eq0: "pipe_ind A s = 0" if "\<not> ?c" unfolding eq using that by (rule if_not_P)
  show "pipe_ind A s \<le> 1" using eq0 eq1 by (cases ?c) simp_all
  show "2 \<le> length (pipes s)" if "pipe_ind A s = 1"
  proof (cases ?c)
    case True
    then show ?thesis by simp
  next
    case False
    from eq0[OF False] that show ?thesis by simp
  qed
  show "pipe_ind A s < length (pipes s)" if "pipes s \<noteq> []"
  proof (cases ?c)
    case True
    then have "1 < length (pipes s)" by blast
    with eq1[OF True] show ?thesis by simp
  next
    case False
    from eq0[OF False] that show ?thesis by simp
  qed
qed

lemma tick_pipes:
  assumes t: "tick A nets inp s = Continue s'" and len: "length (ge s) = length (birds s)"
    and ne: "pipes s \<noteq> []" and unp: "\<not> passed (last (pipes s))"
    and x0: "0 \<le> bird.x (birds s ! 0)"
  shows "pipes s' \<noteq> [] \<and> \<not> passed (last (pipes s'))"
    and "p \<in> set (pipes s) \<Longrightarrow>
         cross (bird.x (birds s ! 0)) (Pipe_move p) \<notin> set (pipes s') \<Longrightarrow>
         pipe.x p - 5 + int (pipe_img_width A) < 0 \<and>
         passed (cross (bird.x (birds s ! 0)) (Pipe_move p))"
proof -
  let ?f = "\<lambda>p. cross (bird.x (birds s ! 0)) (Pipe_move p)"
  let ?off = "\<lambda>q. pipe.x q + int (pipe_img_width A) < 0"
  let ?ps = "map ?f (pipes s)"
  let ?new = "Pipe_init A (entropy inp) (WIN_WIDTH + 100)"
  have P: "pipes s' = fold remove1 (filter ?off ?ps) (if crossing s then ?ps @ [?new] else ?ps)"
    using tick_step(9)[OF t len] by (simp add: Let_def)
  have newoff: "?new \<notin> set (filter ?off ?ps)" by (simp add: WIN_WIDTH_def)
  show "pipes s' \<noteq> [] \<and> \<not> passed (last (pipes s'))"
  proof (cases "crossing s")
    case True
    then have "pipes s' = fold remove1 (filter ?off ?ps) ?ps @ [?new]"
      unfolding P using fold_remove1_snoc[OF newoff] by simp
    then show ?thesis by simp
  next
    case False
    let ?l = "last (pipes s)"
    have lin: "?l \<in> set (pipes s)" using ne by simp
    with False unp have far: "\<not> pipe.x ?l - 5 < bird.x (birds s ! 0)"
      unfolding crossing_def Pipe_VEL_def by blast
    have fl: "\<not> passed (?f ?l)" using unp far by simp
    have "\<not> ?off (?f ?l)" using far x0 by simp
    then have notin: "?f ?l \<notin> set (filter ?off ?ps)" by simp
    have psne: "?ps \<noteq> []" using ne by simp
    have lastps: "last ?ps = ?f ?l" using ne by (simp add: last_map)
    have split: "butlast ?ps @ [?f ?l] = ?ps"
      using append_butlast_last_id[OF psne] unfolding lastps .
    have "pipes s' = fold remove1 (filter ?off ?ps) (butlast ?ps @ [?f ?l])"
      unfolding P split using False by simp
    then have "pipes s' = fold remove1 (filter ?off ?ps) (butlast ?ps) @ [?f ?l]"
      unfolding fold_remove1_snoc[OF notin] .
    then show ?thesis using fl by simp
  qed
  show "pipe.x p - 5 + int (pipe_img_width A) < 0 \<and> passed (?f p)"
    if pin: "p \<in> set (pipes s)" and gone: "?f p \<notin> set (pipes s')"
  proof -
    have "?f p \<in> set (if crossing s then ?ps @ [?new] else ?ps)" using pin by simp
    from fold_remove1_keeps[OF this gone[unfolded P]]
    have off: "?off (?f p)" by simp
    then have 1: "pipe.x p - 5 + int (pipe_img_width A) < 0" by simp
    then have "pipe.x p - 5 < bird.x (birds s ! 0)" using x0 by simp
    then have "passed (?f p)" by simp
    with 1 show ?thesis by blast
  qed
qed

section \<open>The pipe list, and the score of both loops\<close>

lemma outcome_same_state:
  assumes "P s" "out = Running s \<or> out = Returned s"
  shows "out \<noteq> Raised e \<and> (out = Running s' \<or> out = Returned s' \<longrightarrow> P s')"
  using assms by auto

lemma run_pipes:
  assumes "length (ge s) = length (birds s)" "pipes s \<noteq> []" "\<not> passed (last (pipes s))"
    and "birds s \<noteq> [] \<longrightarrow> 0 \<le> bird.x (birds s ! 0)"
  shows "eval_loop A nets inps s \<noteq> Raised e \<and>
    (eval_loop A nets inps s = Running s' \<or> eval_loop A nets inps s = Returned s' \<longrightarrow>
       length (ge s') = length (birds s') \<and> pipes s' \<noteq> [] \<and> \<not> passed (last (pipes s')) \<and>
       (birds s' \<noteq> [] \<longrightarrow> 0 \<le> bird.x (birds s' ! 0)))"
  using assms
proof (induction inps arbitrary: s)
  case Nil
  have "eval_loop A nets [] s = Running s \<or> eval_loop A nets [] s = Returned s" by simp
  with Nil show ?case
    by (intro outcome_same_state[where P = "\<lambda>s. length (ge s) = length (birds s) \<and> pipes s \<noteq> [] \<and>
      \<not> passed (last (pipes s)) \<and> (birds s \<noteq> [] \<longrightarrow> 0 \<le> bird.x (birds s ! 0))"]) blast+
next
  case (Cons inp rest)
  show ?case
  proof (cases "tick A nets inp s")
    case (Continue s1)
    then have "\<exists>s'. tick A nets inp s = Continue s'" by blast
    then have "filter alive (birds s) \<noteq> []" unfolding tick_outcome(4) by blast
    then have ne: "birds s \<noteq> []" by auto
    then have x0: "0 \<le> bird.x (birds s ! 0)" using Cons.prems(4) by blast
    note st = tick_step[OF Continue Cons.prems(1)]
    note tp = tick_pipes(1)[OF Continue Cons.prems(1,2,3) x0]
    have 1: "length (ge s1) = length (birds s1)" using st(1,2) by simp
    have 2: "pipes s1 \<noteq> []" and 3: "\<not> passed (last (pipes s1))" using tp by blast+
    have "bird.x (birds s1 ! 0) = bird.x (birds s ! 0)" using st(7)[of 0] ne by simp
    then have 4: "birds s1 \<noteq> [] \<longrightarrow> 0 \<le> bird.x (birds s1 ! 0)" using x0 by simp
    have "eval_loop A nets (inp # rest) s = eval_loop A nets rest s1" by (simp add: Continue)
    then show ?thesis using Cons.IH[OF 1 2 3 4] by simp
  next
    case Break
    then have "eval_loop A nets (inp # rest) s = Running s \<or>
        eval_loop A nets (inp # rest) s = Returned s" by simp
    with Cons.prems show ?thesis
      by (intro outcome_same_state[where P = "\<lambda>s. length (ge s) = length (birds s) \<and> pipes s \<noteq> [] \<and>
        \<not> passed (last (pipes s)) \<and> (birds s \<noteq> [] \<longrightarrow> 0 \<le> bird.x (birds s ! 0))"]) blast+
  next
    case SystemExit
    then have "eval_loop A nets (inp # rest) s = Exited" by simp
    then show ?thesis by simp
  next
    case (Raise e')
    then have "length (pipes s) \<le> pipe_ind A s" unfolding tick_outcome(3) by blast
    with pipe_ind_bound(3)[OF Cons.prems(2), of A] show ?thesis by simp
  qed
qed

lemma generation_start_pipes:
  "pipes (generation_start A nets GEN g0) \<noteq> []"
  "\<not> passed (last (pipes (generation_start A nets GEN g0)))"
  "birds (generation_start A nets GEN g0) \<noteq> [] \<longrightarrow>
     0 \<le> bird.x (birds (generation_start A nets GEN g0) ! 0)"
  by (simp_all add: generation_start_def Bird_init_def nth_map)

lemma Bird_x_keeps [simp]:
  "bird.x (Bird_draw b) = bird.x b" "bird.x (Bird_move b) = bird.x b" "bird.x (Bird_jump b) = bird.x b"
  by (simp_all add: Bird_draw_def Bird_move_def Bird_jump_def Let_def)

lemma poll_events_x: "bird.x (fst (poll_events es (b, r))) = bird.x b"
proof (induction es "(b, r)" arbitrary: b r rule: poll_events.induct)
  case 1
  show ?case by simp
next
  case (2 es b r)
  show ?case by simp
next
  case (3 k es b r)
  then show ?case by (simp add: Let_def)
next
  case (4 es)
  then show ?case by simp
qed

lemma main_pipe_body_eq:
  "main_pipe_body A p (done, b, r, ap, rm) =
    (done @ [cross (bird.x b) (Pipe_move p)],
     (if Pipe_collide A (Pipe_move p) b then Bird_draw b else b),
     (if Pipe_collide A (Pipe_move p) b then False else r),
     ap \<or> (\<not> passed p \<and> pipe.x p - 5 < bird.x b),
     rm @ filter (\<lambda>q. pipe.x q + int (pipe_img_width A) < 0) [cross (bird.x b) (Pipe_move p)])"
  by (simp add: main_pipe_body_def cross_def Let_def)

lemma main_pipe_loop:
  assumes "fold (main_pipe_body A) ps (done, b, r, ap, rm) = (ps', b', r', ap', rm')"
  shows "bird.x b' = bird.x b \<and>
    ap' = (ap \<or> (\<exists>p\<in>set ps. \<not> passed p \<and> pipe.x p - 5 < bird.x b))"
  using assms
proof (induction ps arbitrary: "done" b r ap rm)
  case Nil
  then show ?case by simp
next
  case (Cons p ps)
  let ?b1 = "if Pipe_collide A (Pipe_move p) b then Bird_draw b else b"
  have x1: "bird.x ?b1 = bird.x b" by simp
  from Cons.prems obtain d1 r1 rm1 where
    "fold (main_pipe_body A) ps (d1, ?b1, r1, ap \<or> (\<not> passed p \<and> pipe.x p - 5 < bird.x b), rm1)
      = (ps', b', r', ap', rm')"
    by (simp only: fold_simps main_pipe_body_eq)
  from Cons.IH[OF this] show ?case unfolding x1 by auto
qed

lemma main_tick_score:
  "game.score (main_tick A inp g) = (if main_crossing g then game.score g + 1 else game.score g)"
proof -
  obtain b0 r0 where pe: "poll_events (events inp) (game.bird g, run g) = (b0, r0)"
    by (cases "poll_events (events inp) (game.bird g, run g)")
  obtain ps b1 r1 ap rm where
    pl: "fold (main_pipe_body A) (game.pipes g) ([], Bird_move b0, r0, False, []) = (ps, b1, r1, ap, rm)"
    by (cases "fold (main_pipe_body A) (game.pipes g) ([], Bird_move b0, r0, False, [])")
  have "b0 = fst (poll_events (events inp) (game.bird g, run g))" by (simp add: pe)
  then have x0: "bird.x b0 = bird.x (game.bird g)" by (simp add: poll_events_x)
  from main_pipe_loop[OF pl] have "ap = main_crossing g"
    by (simp add: main_crossing_def x0 Pipe_VEL_def)
  moreover have "game.score (main_tick A inp g) = (if ap then game.score g + 1 else game.score g)"
    by (simp add: main_tick_def pe pl Let_def split_beta)
  ultimately show ?thesis by simp
qed

lemma eval_loop_score_mono:
  assumes "length (ge s) = length (birds s)"
    and "eval_loop A nets inps s = Running s' \<or> eval_loop A nets inps s = Returned s'"
  shows "score s \<le> score s'"
  using assms
proof (induction inps arbitrary: s)
  case Nil
  then show ?case by simp
next
  case (Cons inp rest)
  from eval_loop_Cons_state[OF Cons.prems(2)]
  consider (brk) "tick A nets inp s = Break" "s' = s"
    | (cont) s1 where "tick A nets inp s = Continue s1"
        "eval_loop A nets rest s1 = Running s' \<or> eval_loop A nets rest s1 = Returned s'"
    by blast
  then show ?case
  proof cases
    case brk
    then show ?thesis by simp
  next
    case cont
    note st = tick_step[OF cont(1) Cons.prems(1)]
    have "length (ge s1) = length (birds s1)" using st(1,2) by simp
    from Cons.IH[OF this cont(2)] have "score s1 \<le> score s'" .
    moreover have "score s \<le> score s1" using st(3) by simp
    ultimately show ?thesis by simp
  qed
qed

lemma main_loop_score_mono:
  "main_loop A inps g = Playing g' \<Longrightarrow> game.score g \<le> game.score g'"
  "main_loop A inps g = GameOver n \<Longrightarrow> game.score g \<le> n"
proof (induction inps arbitrary: g)
  case Nil
  { case 1 then show ?case by (simp split: if_splits) }
  { case 2 then show ?case by (simp split: if_splits) }
next
  case (Cons inp rest)
  { case 1
    have step: "game.score g \<le> game.score (main_tick A inp g)" by (simp add: main_tick_score)
    from 1 have "main_loop A rest (main_tick A inp g) = Playing g'" by (simp split: if_splits)
    from Cons.IH(1)[OF this] have "game.score (main_tick A inp g) \<le> game.score g'" .
    with step show ?case by (rule order_trans) }
  { case 2
    have step: "game.score g \<le> game.score (main_tick A inp g)" by (simp add: main_tick_score)
    show ?case
    proof (cases "run g")
      case True
      with 2 have "main_loop A rest (main_tick A inp g) = GameOver n" by simp
      from Cons.IH(2)[OF this] have "game.score (main_tick A inp g) \<le> n" .
      with step show ?thesis by (rule order_trans)
    next
      case False
      with 2 show ?thesis by simp
    qed }
qed

section \<open>The two evaluation loops differ in the fitness values only\<close>

lemma fold_fst_cong:
  assumes "\<And>i bs g g'. fst (f i (bs, g)) = fst (f' i (bs, g'))"
  shows "fst (fold f js (bs, g)) = fst (fold f' js (bs, g'))"
proof (induction js arbitrary: bs g g')
  case Nil
  show ?case by simp
next
  case (Cons i js)
  obtain b1 g1 where 1: "f i (bs, g) = (b1, g1)" by (cases "f i (bs, g)")
  obtain b2 g2 where 2: "f' i (bs, g') = (b2, g2)" by (cases "f' i (bs, g')")
  have "b1 = b2" using assms[of i bs g g'] 1 2 by simp
  then show ?case using Cons.IH[of b1 g1 g2] 1 2 by simp
qed

lemma think64_birds: "fst (think64 nets lead i (bs, g)) = fst (think nets lead i (bs, g'))"
  by (simp add: think64_def think_def Let_def)

lemma hit64_birds: "fst (hit64 A p i (bs, g)) = fst (hit A p i (bs, g'))"
  by (simp add: hit64_def hit_def)

lemma out_of_bounds64_birds:
  "fst (out_of_bounds64 A ground i (bs, g)) = fst (out_of_bounds A ground i (bs, g'))"
  by (simp add: out_of_bounds64_def out_of_bounds_def Let_def)

lemma pipe_body64_game:
  assumes "pipe_body64 A p (ps, bs, g, ap, rm) = (ps1, bs1, g1, ap1, rm1)"
    and "pipe_body A p (ps, bs, g', ap, rm) = (ps2, bs2, g2, ap2, rm2)"
  shows "ps1 = ps2 \<and> bs1 = bs2 \<and> ap1 = ap2 \<and> rm1 = rm2"
proof -
  obtain b1 f1 where 1: "fold (hit64 A (Pipe_move p)) [0..<length bs] (bs, g) = (b1, f1)"
    by (cases "fold (hit64 A (Pipe_move p)) [0..<length bs] (bs, g)")
  obtain b2 f2 where 2: "fold (hit A (Pipe_move p)) [0..<length bs] (bs, g') = (b2, f2)"
    by (cases "fold (hit A (Pipe_move p)) [0..<length bs] (bs, g')")
  have "fst (fold (hit64 A (Pipe_move p)) [0..<length bs] (bs, g)) =
      fst (fold (hit A (Pipe_move p)) [0..<length bs] (bs, g'))"
    by (rule fold_fst_cong) (rule hit64_birds)
  then have b: "b1 = b2" using 1 2 by simp
  from assms(1) have "ps1 = ps @ [cross (bird.x (b1 ! 0)) (Pipe_move p)]" "bs1 = b1"
    "ap1 = (ap \<or> \<not> passed (Pipe_move p) \<and> bird.x (b1 ! 0) > pipe.x (Pipe_move p))"
    "rm1 = (if pipe.x (Pipe_move p) + int (pipe_img_width A) < 0
            then rm @ [cross (bird.x (b1 ! 0)) (Pipe_move p)] else rm)"
    by (auto simp add: pipe_body64_def Let_def 1 cross_def split: if_splits)
  moreover from assms(2) have "ps2 = ps @ [cross (bird.x (b2 ! 0)) (Pipe_move p)]" "bs2 = b2"
    "ap2 = (ap \<or> \<not> passed (Pipe_move p) \<and> bird.x (b2 ! 0) > pipe.x (Pipe_move p))"
    "rm2 = (if pipe.x (Pipe_move p) + int (pipe_img_width A) < 0
            then rm @ [cross (bird.x (b2 ! 0)) (Pipe_move p)] else rm)"
    by (auto simp add: pipe_body_def Let_def 2 cross_def split: if_splits)
  ultimately show ?thesis using b by simp
qed

lemma pipe_loop64_game:
  assumes "fold (pipe_body64 A) qs (ps, bs, g, ap, rm) = (ps1, bs1, g1, ap1, rm1)"
    and "fold (pipe_body A) qs (ps, bs, g', ap, rm) = (ps2, bs2, g2, ap2, rm2)"
  shows "ps1 = ps2 \<and> bs1 = bs2 \<and> ap1 = ap2 \<and> rm1 = rm2"
  using assms
proof (induction qs arbitrary: ps bs g g' ap rm)
  case Nil
  then show ?case by simp
next
  case (Cons q qs)
  obtain a1 b1 c1 d1 e1 where 1: "pipe_body64 A q (ps, bs, g, ap, rm) = (a1, b1, c1, d1, e1)"
    by (cases "pipe_body64 A q (ps, bs, g, ap, rm)")
  obtain a2 b2 c2 d2 e2 where 2: "pipe_body A q (ps, bs, g', ap, rm) = (a2, b2, c2, d2, e2)"
    by (cases "pipe_body A q (ps, bs, g', ap, rm)")
  from pipe_body64_game[OF 1 2] have eq: "a1 = a2" "b1 = b2" "d1 = d2" "e1 = e2" by simp_all
  from Cons.prems(1) have 3: "fold (pipe_body64 A) qs (a2, b2, c1, d2, e2) = (ps1, bs1, g1, ap1, rm1)"
    by (simp add: 1 eq)
  from Cons.prems(2) have 4: "fold (pipe_body A) qs (a2, b2, c2, d2, e2) = (ps2, bs2, g2, ap2, rm2)"
    by (simp add: 2)
  from 3 4 show ?case by (rule Cons.IH)
qed

lemma tick64_game:
  "map_step (ge_update (\<lambda>_. [])) (tick64 A nets inp s) =
   map_step (ge_update (\<lambda>_. [])) (tick A nets inp (s\<lparr>ge := g\<rparr>))"
proof -
  let ?lead = "pipes s ! pipe_ind A s"
  have ind: "pipe_ind A (s\<lparr>ge := g\<rparr>) = pipe_ind A s" by (simp add: pipe_ind_def)
  obtain b1 f1 where 1: "fold (think64 nets ?lead) [0..<length (birds s)] (birds s, ge s) = (b1, f1)"
    by (cases "fold (think64 nets ?lead) [0..<length (birds s)] (birds s, ge s)")
  obtain b1' f1' where r1: "fold (think nets ?lead) [0..<length (birds s)] (birds s, g) = (b1', f1')"
    by (cases "fold (think nets ?lead) [0..<length (birds s)] (birds s, g)")
  have "fst (fold (think64 nets ?lead) [0..<length (birds s)] (birds s, ge s)) =
      fst (fold (think nets ?lead) [0..<length (birds s)] (birds s, g))"
    by (rule fold_fst_cong) (rule think64_birds)
  then have b1: "b1' = b1" using 1 r1 by simp
  obtain p2 b2 f2 ap rm where 2: "fold (pipe_body64 A) (pipes s) ([], b1, f1, False, []) = (p2, b2, f2, ap, rm)"
    by (cases "fold (pipe_body64 A) (pipes s) ([], b1, f1, False, [])")
  obtain p2' b2' f2' ap' rm' where
    r2: "fold (pipe_body A) (pipes s) ([], b1, f1', False, []) = (p2', b2', f2', ap', rm')"
    by (cases "fold (pipe_body A) (pipes s) ([], b1, f1', False, [])")
  from pipe_loop64_game[OF 2 r2] have eq2: "p2' = p2" "b2' = b2" "ap' = ap" "rm' = rm" by simp_all
  let ?g3 = "if ap then map (\<lambda>fitness. double (fitness + 5)) f2 else f2"
  let ?g3' = "if ap then map (\<lambda>fitness. fitness + 5) f2' else f2'"
  obtain b3 f3 where 3: "fold (out_of_bounds64 A (base s)) [0..<length b2] (b2, ?g3) = (b3, f3)"
    by (cases "fold (out_of_bounds64 A (base s)) [0..<length b2] (b2, ?g3)")
  obtain b3' f3' where r3: "fold (out_of_bounds A (base s)) [0..<length b2] (b2, ?g3') = (b3', f3')"
    by (cases "fold (out_of_bounds A (base s)) [0..<length b2] (b2, ?g3')")
  have "fst (fold (out_of_bounds64 A (base s)) [0..<length b2] (b2, ?g3)) =
      fst (fold (out_of_bounds A (base s)) [0..<length b2] (b2, ?g3'))"
    by (rule fold_fst_cong) (rule out_of_bounds64_birds)
  then have b3: "b3' = b3" using 3 r3 by simp
  show ?thesis
    unfolding tick64_def tick_def
    by (simp add: Let_def ind 1 r1 b1 2 r2 eq2 3 r3 b3 del: upt.simps)
qed

lemma eval_loop64_game:
  "without_fitness (eval_loop64 A nets inps s) = without_fitness (eval_loop A nets inps (s\<lparr>ge := g\<rparr>))"
proof (induction inps arbitrary: s g)
  case Nil
  show ?case by simp
next
  case (Cons inp rest)
  note T = tick64_game[of A nets inp s g]
  show ?case
  proof (cases "tick64 A nets inp s")
    case (Continue s1)
    with T obtain s2 where 2: "tick A nets inp (s\<lparr>ge := g\<rparr>) = Continue s2"
      and eq: "s1\<lparr>ge := []\<rparr> = s2\<lparr>ge := []\<rparr>"
      by (cases "tick A nets inp (s\<lparr>ge := g\<rparr>)") simp_all
    from eq have "s2 = s1\<lparr>ge := ge s2\<rparr>"
      by (cases s1, cases s2) simp
    then have "eval_loop A nets rest s2 = eval_loop A nets rest (s1\<lparr>ge := ge s2\<rparr>)" by simp
    with Cons.IH[of s1 "ge s2"] Continue 2 show ?thesis by simp
  next
    case Break
    with T have "tick A nets inp (s\<lparr>ge := g\<rparr>) = Break"
      by (cases "tick A nets inp (s\<lparr>ge := g\<rparr>)") simp_all
    with Break show ?thesis by simp
  next
    case SystemExit
    with T have "tick A nets inp (s\<lparr>ge := g\<rparr>) = SystemExit"
      by (cases "tick A nets inp (s\<lparr>ge := g\<rparr>)") simp_all
    with SystemExit show ?thesis by simp
  next
    case (Raise e)
    with T have "tick A nets inp (s\<lparr>ge := g\<rparr>) = Raise e"
      by (cases "tick A nets inp (s\<lparr>ge := g\<rparr>)") simp_all
    with Raise show ?thesis by simp
  qed
qed

lemma eval_genomes64_game:
  "without_fitness (eval_genomes64 A nets GEN g0 inps) = without_fitness (eval_genomes A nets GEN g0 inps)"
  using eval_loop64_game[of A nets inps "generation_start A nets GEN g0" "ge (generation_start A nets GEN g0)"]
  by (simp add: eval_genomes64_def eval_genomes_def)

section \<open>Evaluation of the examples\<close>

lemmas evaluation =
  tick_def think_def hit_def pipe_body_def out_of_bounds_def draw_window_def pipe_ind_def
  beyond_bounds_def Bird_move_def Bird_jump_def Bird_draw_def Bird_init_def
  Pipe_init_def Pipe_set_height_def Pipe_move_def Pipe_collide_def Base_init_def Base_move_def
  randrange_def py_round_def stock_def hover_def never_jump_def always_jump_def no_quit_def
  rect_overlap_def GAP_def Pipe_VEL_def Base_VEL_def WIN_WIDTH_def MAX_ROTATION_def ROT_VEL_def
  ANIMATION_TIME_def generation_start_def eval_genomes_def Let_def upt_rec eval_nat_numeral
  fallen_def gap200_def hovering_def

lemma eval_loop_append:
  "eval_loop A nets (xs @ ys) s =
    (case eval_loop A nets xs s of Running s' \<Rightarrow> eval_loop A nets ys s' | out \<Rightarrow> out)"
proof (induction xs arbitrary: s)
  case Nil
  show ?case by simp
next
  case (Cons x xs)
  show ?case by (cases "tick A nets x s") (simp_all add: Cons.IH)
qed

lemma first_24:
  "eval_loop stock [hover, never_jump] (replicate 24 no_quit)
     (generation_start stock [hover, never_jump] 0 150) = Running after_24"
  by (simp add: evaluation after_24_def del: upt.simps)

lemma second_24:
  "eval_loop stock [hover, never_jump] (replicate 24 no_quit) after_24 = Running after_48"
  by (simp add: evaluation after_24_def after_48_def del: upt.simps)

lemma third_24:
  "eval_loop stock [hover, never_jump] (replicate 24 no_quit) after_48 = Running after_72"
  by (simp add: evaluation after_48_def after_72_def del: upt.simps)

lemma last_22:
  "eval_loop stock [hover, never_jump] (replicate 22 no_quit) after_72 = Running before_first_pass"
  by (simp add: evaluation after_72_def before_first_pass_def del: upt.simps)

lemma first_pass_tick:
  "tick stock [hover, never_jump] no_quit before_first_pass = Continue after_first_pass"
  by (simp add: evaluation before_first_pass_def after_first_pass_def del: upt.simps)

lemma run_to_first_pass:
  "eval_genomes stock [hover, never_jump] 0 150 (replicate 94 no_quit) = Running before_first_pass"
proof -
  have "replicate 94 no_quit =
      replicate 24 no_quit @ replicate 24 no_quit @ replicate 24 no_quit @ replicate 22 no_quit"
    by (simp flip: replicate_add)
  then show ?thesis
    unfolding eval_genomes_def
    by (simp only: eval_loop_append first_24 second_24 third_24 last_22 outcome.case)
qed

lemma run_past_first_pass:
  "eval_genomes stock [hover, never_jump] 0 150 (replicate 95 no_quit) = Running after_first_pass"
proof -
  have "replicate 94 no_quit @ replicate 1 no_quit = replicate (94 + 1) no_quit"
    by (simp only: replicate_add)
  then have split: "replicate 95 no_quit = replicate 94 no_quit @ replicate 1 no_quit"
    by (simp only: numeral_plus_one arith_simps)
  have one: "eval_loop stock [hover, never_jump] (replicate 1 no_quit) before_first_pass =
      Running after_first_pass"
    by (simp add: first_pass_tick)
  have "eval_loop stock [hover, never_jump] (replicate 94 no_quit)
      (generation_start stock [hover, never_jump] 0 150) = Running before_first_pass"
    using run_to_first_pass unfolding eval_genomes_def .
  then show ?thesis
    unfolding eval_genomes_def split by (simp only: eval_loop_append one outcome.case)
qed

lemma never_jump_run:
  "eval_genomes stock [never_jump] 0 150 (replicate 24 no_quit) = Returned died_on_ground"
  by (simp add: evaluation died_on_ground_def del: upt.simps)


















lemma pipe_leaving_tick:
  "tick stock [hover, never_jump] no_quit pipe_leaving = Continue pipe_left"
  by (simp add: evaluation pipe_leaving_def pipe_left_def after_first_pass_def del: upt.simps)

section \<open>The evaluation loop: fitness, score, termination and the pipe list\<close>


text \<open>
  C2. The generation of \<open>hover\<close> and \<open>never_jump\<close>: after 94 ticks the second bird is
  dead and the fitness of its genome is 1.3. In tick 95 the reference bird crosses the
  first pipe, the score becomes 1, and the fitness of the dead bird's genome rises by 5.
\<close>

theorem dead_genome_receives_bonus:
  "eval_genomes stock [hover, never_jump] 0 150 (replicate 94 no_quit) = Running before_first_pass \<and>
   \<not> alive (birds before_first_pass ! 1) \<and>
   ge before_first_pass ! 1 = 13 / 10 \<and>
   crossing before_first_pass \<and>
   eval_genomes stock [hover, never_jump] 0 150 (replicate 95 no_quit) = Running after_first_pass \<and>
   score after_first_pass = score before_first_pass + 1 \<and>
   ge after_first_pass ! 1 = ge before_first_pass ! 1 + 5"
proof -
  have "\<not> alive (birds before_first_pass ! 1)" "ge before_first_pass ! 1 = 13 / 10"
    "score after_first_pass = score before_first_pass + 1"
    "ge after_first_pass ! 1 = ge before_first_pass ! 1 + 5"
    by (simp_all add: before_first_pass_def after_first_pass_def fallen_def)
  moreover have "crossing before_first_pass"
    by (simp add: crossing_def before_first_pass_def gap200_def hovering_def Pipe_VEL_def)
  ultimately show ?thesis using run_to_first_pass run_past_first_pass by blast
qed

text \<open>
  C6. In a tick of the evaluation loop that runs to its end, and in every tick of the
  manual game, the score rises by exactly 1 if the \<open>x\<close> of the reference bird strictly
  exceeds the \<open>x\<close> of some unpassed pipe after the pipe has moved, however many such
  pipes there are, and stays as it is otherwise. Over any run of either loop the score
  does not fall.
\<close>

theorem score_increment:
  "(tick A nets inp s = Continue s' \<and> length (ge s) = length (birds s) \<longrightarrow>
      sim.score s' = sim.score s + (if crossing s then 1 else 0)) \<and>
   game.score (main_tick A minp g) = game.score g + (if main_crossing g then 1 else 0) \<and>
   (length (ge s) = length (birds s) \<and>
      (eval_loop A nets inps s = Running s' \<or> eval_loop A nets inps s = Returned s') \<longrightarrow>
      sim.score s \<le> sim.score s') \<and>
   (main_loop A minps g = Playing g' \<longrightarrow> game.score g \<le> game.score g') \<and>
   (main_loop A minps g = GameOver n \<longrightarrow> game.score g \<le> n)"
proof (intro conjI impI)
  show "sim.score s' = sim.score s + (if crossing s then 1 else 0)"
    if "tick A nets inp s = Continue s' \<and> length (ge s) = length (birds s)"
    using tick_step(3)[of A nets inp s s'] that by simp
  show "game.score (main_tick A minp g) = game.score g + (if main_crossing g then 1 else 0)"
    by (simp add: main_tick_score)
  show "sim.score s \<le> sim.score s'"
    if "length (ge s) = length (birds s) \<and>
      (eval_loop A nets inps s = Running s' \<or> eval_loop A nets inps s = Returned s')"
    using eval_loop_score_mono[of s A nets inps s'] that by blast
  show "game.score g \<le> game.score g'" if "main_loop A minps g = Playing g'"
    using that by (rule main_loop_score_mono(1))
  show "game.score g \<le> n" if "main_loop A minps g = GameOver n"
    using that by (rule main_loop_score_mono(2))
qed

theorem score_increment_witness:
  "(\<exists>s'. tick stock [hover, never_jump] no_quit two_crossings = Continue s' \<and>
      eval_loop stock [hover, never_jump] [no_quit] two_crossings = Running s' \<and>
      sim.score s' = sim.score two_crossings + 1) \<and>
   length (filter (\<lambda>p. \<not> passed p \<and> pipe.x p - Pipe_VEL < 230) (sim.pipes two_crossings)) = 2 \<and>
   game.score (main_tick stock no_events two_crossings_game) = game.score two_crossings_game + 1 \<and>
   main_loop stock [] two_crossings_game = Playing two_crossings_game \<and>
   main_loop stock [no_events] two_crossings_game = GameOver 1"
proof -
  have len: "length (ge two_crossings) = length (birds two_crossings)"
    by (simp add: two_crossings_def before_first_pass_def)
  have cr: "crossing two_crossings"
    by (simp add: crossing_def two_crossings_def before_first_pass_def gap200_def hovering_def
        Pipe_VEL_def)
  have "\<exists>s'. tick stock [hover, never_jump] no_quit two_crossings = Continue s'"
    unfolding tick_outcome(4)
    by (simp add: pipe_ind_def two_crossings_def before_first_pass_def no_quit_def hovering_def
        gap200_def stock_def Let_def)
  then obtain s' where t: "tick stock [hover, never_jump] no_quit two_crossings = Continue s'"
    by blast
  then have r: "eval_loop stock [hover, never_jump] [no_quit] two_crossings = Running s'" by simp
  note T = score_increment[of stock "[hover, never_jump]" no_quit two_crossings s' no_events
      two_crossings_game "[no_quit]" "[]" two_crossings_game 1]
  from T t len cr have sc: "sim.score s' = sim.score two_crossings + 1" by simp
  have two: "length (filter (\<lambda>p. \<not> passed p \<and> pipe.x p - Pipe_VEL < 230)
      (sim.pipes two_crossings)) = 2"
    by (simp add: two_crossings_def gap200_def Pipe_VEL_def)
  have mc: "main_crossing two_crossings_game"
    by (simp add: main_crossing_def two_crossings_game_def gap200_def Bird_init_def Pipe_VEL_def)
  from T mc have ms: "game.score (main_tick stock no_events two_crossings_game) =
      game.score two_crossings_game + 1" by simp
  have pl: "main_loop stock [] two_crossings_game = Playing two_crossings_game"
    by (simp add: two_crossings_game_def)
  have go: "main_loop stock [no_events] two_crossings_game = GameOver 1"
    by (simp add: two_crossings_game_def no_events_def main_tick_def main_pipe_body_def
        evaluation del: upt.simps)
  from t r sc two ms pl go show ?thesis by blast
qed

text \<open>
  C7. With an empty collection of genomes, \<open>eval_genomes\<close> ends in its first tick: it
  returns in the state in which the loop was entered, which holds no fitness value, or
  the process exits on a \<open>QUIT\<close> event; no exception is raised. More generally the loop
  returns at once, its state unchanged, from every state in which no bird is alive.
\<close>

theorem empty_generation_returns:
  "eval_genomes A [] GEN g0 (inp # rest) =
     (if quit inp then Exited else Returned (generation_start A [] GEN g0)) \<and>
   ge (generation_start A [] GEN g0) = [] \<and>
   (\<forall>nets s. filter alive (birds s) = [] \<longrightarrow>
      eval_loop A nets (inp # rest) s = (if quit inp then Exited else Returned s))"
proof (intro conjI allI impI)
  show "ge (generation_start A [] GEN g0) = []" by (simp add: generation_start_def)
  show "eval_loop A nets (inp # rest) s = (if quit inp then Exited else Returned s)"
    if "filter alive (birds s) = []" for nets s
    using that by (simp add: tick_def)
  have "filter alive (birds (generation_start A [] GEN g0)) = []"
    by (simp add: generation_start_def)
  then show "eval_genomes A [] GEN g0 (inp # rest) =
     (if quit inp then Exited else Returned (generation_start A [] GEN g0))"
    by (simp add: eval_genomes_def tick_def)
qed

theorem empty_generation_returns_witness:
  "eval_genomes stock [] 0 150 [no_quit] = Returned (generation_start stock [] 0 150) \<and>
   filter alive (birds died_on_ground) = [] \<and>
   eval_loop stock [never_jump] [no_quit] died_on_ground = Returned died_on_ground"
proof -
  note T = empty_generation_returns[of stock 0 150 no_quit "[]"]
  have q: "\<not> quit no_quit" by (simp add: no_quit_def)
  have d: "filter alive (birds died_on_ground) = []" by (simp add: died_on_ground_def fallen_def)
  from T q have 1: "eval_genomes stock [] 0 150 [no_quit] = Returned (generation_start stock [] 0 150)"
    by simp
  from T d q have 2: "eval_loop stock [never_jump] [no_quit] died_on_ground = Returned died_on_ground"
    by simp
  from 1 d 2 show ?thesis by blast
qed

text \<open>
  C9. Take any state of the evaluation loop with as many fitness values as birds, and the
  state after any further run of the loop. A bird that is alive afterwards was alive
  before. A bird that was dead before is the same bird afterwards, so its physics were
  not advanced; the run does not depend on the network at its index, so its policy was
  not evaluated; and its fitness changed only by 5 per point of score. For every bird the
  fitness changed by 0.1 per tick begun alive, 5 per point of score, and -1 exactly if
  the bird died in the run: the penalty is applied once.
\<close>

theorem dead_agent_is_frozen:
  assumes len: "length (ge s) = length (birds s)" and i: "i < length (birds s)"
    and run: "eval_loop A nets inps s = Running s' \<or> eval_loop A nets inps s = Returned s'"
  shows "(alive (birds s' ! i) \<longrightarrow> alive (birds s ! i)) \<and>
    (\<not> alive (birds s ! i) \<longrightarrow>
       birds s' ! i = birds s ! i \<and>
       eval_loop A (nets[i := net']) inps s = eval_loop A nets inps s \<and>
       ge s' ! i = ge s ! i + 5 * of_int (score s' - score s)) \<and>
    ge s' ! i = ge s ! i + 0.1 * real (alive_ticks A nets inps s i)
                + 5 * of_int (score s' - score s)
                - (if alive (birds s ! i) \<and> \<not> alive (birds s' ! i) then 1 else 0)"
proof -
  note F = run_facts[OF len i run]
  note mono = F[THEN conjunct2, THEN conjunct2, THEN conjunct1]
  note frozen = F[THEN conjunct2, THEN conjunct2, THEN conjunct2, THEN conjunct1]
  note fit = F[THEN conjunct2, THEN conjunct2, THEN conjunct2, THEN conjunct2, THEN conjunct2]
  have dead: "birds s' ! i = birds s ! i \<and>
       eval_loop A (nets[i := net']) inps s = eval_loop A nets inps s \<and>
       ge s' ! i = ge s ! i + 5 * of_int (score s' - score s)" if d: "\<not> alive (birds s ! i)"
  proof -
    from frozen d have 1: "birds s' ! i = birds s ! i" and k: "alive_ticks A nets inps s i = 0"
      by blast+
    have 2: "eval_loop A (nets[i := net']) inps s = eval_loop A nets inps s"
      by (rule eval_loop_other_net[OF len i d])
    have 3: "ge s' ! i = ge s ! i + 5 * of_int (score s' - score s)"
      unfolding fit k using d by simp
    from 1 2 3 show ?thesis by blast
  qed
  from mono dead fit show ?thesis by blast
qed

theorem dead_agent_is_frozen_witness:
  "eval_loop stock [hover, never_jump] [no_quit] before_first_pass = Running after_first_pass \<and>
   \<not> alive (birds before_first_pass ! 1) \<and>
   birds after_first_pass ! 1 = birds before_first_pass ! 1 \<and>
   eval_loop stock [hover, always_jump] [no_quit] before_first_pass = Running after_first_pass \<and>
   ge after_first_pass ! 1 =
     ge before_first_pass ! 1 + 5 * of_int (score after_first_pass - score before_first_pass) \<and>
   alive (birds before_first_pass ! 0) \<and> alive (birds after_first_pass ! 0) \<and>
   ge after_first_pass ! 0 =
     ge before_first_pass ! 0
     + 0.1 * real (alive_ticks stock [hover, never_jump] [no_quit] before_first_pass 0)
     + 5 * of_int (score after_first_pass - score before_first_pass)"
proof -
  have len: "length (ge before_first_pass) = length (birds before_first_pass)"
    and i1: "1 < length (birds before_first_pass)" and i0: "0 < length (birds before_first_pass)"
    by (simp_all add: before_first_pass_def)
  have run: "eval_loop stock [hover, never_jump] [no_quit] before_first_pass = Running after_first_pass"
    by (simp add: first_pass_tick)
  have d: "\<not> alive (birds before_first_pass ! 1)"
    and a: "alive (birds before_first_pass ! 0)" "alive (birds after_first_pass ! 0)"
    by (simp_all add: before_first_pass_def after_first_pass_def fallen_def hovering_def)
  have upd: "[hover, never_jump][1 := always_jump] = [hover, always_jump]" by simp
  note T1 = dead_agent_is_frozen[OF len i1 disjI1[OF run], of always_jump]
  note T0 = dead_agent_is_frozen[OF len i0 disjI1[OF run], of always_jump]
  from T1 d have 1: "birds after_first_pass ! 1 = birds before_first_pass ! 1"
    and 2: "eval_loop stock ([hover, never_jump][1 := always_jump]) [no_quit] before_first_pass =
            eval_loop stock [hover, never_jump] [no_quit] before_first_pass"
    and 3: "ge after_first_pass ! 1 =
     ge before_first_pass ! 1 + 5 * of_int (score after_first_pass - score before_first_pass)"
    by blast+
  from 2 have other: "eval_loop stock [hover, always_jump] [no_quit] before_first_pass = Running after_first_pass"
    unfolding upd run .
  from T0 a have 4: "ge after_first_pass ! 0 =
     ge before_first_pass ! 0
     + 0.1 * real (alive_ticks stock [hover, never_jump] [no_quit] before_first_pass 0)
     + 5 * of_int (score after_first_pass - score before_first_pass)"
    by simp
  from run d 1 other 3 a 4 show ?thesis by blast
qed

text \<open>
  C10. No run of \<open>eval_genomes\<close> raises an exception. In every state that a run
  reaches, the numbers of fitness values and of birds agree, the reference bird is not
  left of the window, the pipe list is not empty, \<open>pipe_ind\<close> is an index of it and is
  1 only if there are two pipes, and the last pipe is not passed. In a tick from a state
  with these properties, a pipe that is no longer in the list afterwards has moved fully
  off the left edge and is passed, while the last pipe of the state before is still in
  the list or has been replaced by a new unpassed one.
\<close>

theorem pipe_lookup_in_bounds:
  "eval_genomes A nets GEN g0 inps \<noteq> Raised e \<and>
   (eval_genomes A nets GEN g0 inps = Running s \<or> eval_genomes A nets GEN g0 inps = Returned s \<longrightarrow>
      length (ge s) = length (birds s) \<and>
      (birds s \<noteq> [] \<longrightarrow> 0 \<le> bird.x (birds s ! 0)) \<and>
      pipes s \<noteq> [] \<and> pipe_ind A s < length (pipes s) \<and>
      (pipe_ind A s = 1 \<longrightarrow> 2 \<le> length (pipes s)) \<and>
      \<not> passed (last (pipes s))) \<and>
   (length (ge t) = length (birds t) \<and> 0 \<le> bird.x (birds t ! 0) \<and>
    pipes t \<noteq> [] \<and> \<not> passed (last (pipes t)) \<and>
    tick A nets inp t = Continue t' \<and> p \<in> set (pipes t) \<and>
    cross (bird.x (birds t ! 0)) (Pipe_move p) \<notin> set (pipes t') \<longrightarrow>
      pipe.x p - Pipe_VEL + int (pipe_img_width A) < 0 \<and>
      passed (cross (bird.x (birds t ! 0)) (Pipe_move p)) \<and>
      pipes t' \<noteq> [] \<and> \<not> passed (last (pipes t')))"
proof -
  let ?s0 = "generation_start A nets GEN g0"
  have len: "length (ge ?s0) = length (birds ?s0)" by simp
  note R = run_pipes[where s = "generation_start A nets GEN g0" and A = A and nets = nets
      and inps = inps and e = e and s' = s, OF len generation_start_pipes]
  have a: "eval_genomes A nets GEN g0 inps \<noteq> Raised e"
    unfolding eval_genomes_def using R by blast
  have b: "length (ge s) = length (birds s) \<and>
      (birds s \<noteq> [] \<longrightarrow> 0 \<le> bird.x (birds s ! 0)) \<and>
      pipes s \<noteq> [] \<and> pipe_ind A s < length (pipes s) \<and>
      (pipe_ind A s = 1 \<longrightarrow> 2 \<le> length (pipes s)) \<and>
      \<not> passed (last (pipes s))"
    if run: "eval_genomes A nets GEN g0 inps = Running s \<or> eval_genomes A nets GEN g0 inps = Returned s"
  proof -
    from run R have inv: "length (ge s) = length (birds s)" "pipes s \<noteq> []"
      "\<not> passed (last (pipes s))" "birds s \<noteq> [] \<longrightarrow> 0 \<le> bird.x (birds s ! 0)"
      unfolding eval_genomes_def by blast+
    from inv pipe_ind_bound(2)[of A s] pipe_ind_bound(3)[OF inv(2), of A]
    show ?thesis by blast
  qed
  have c: "pipe.x p - Pipe_VEL + int (pipe_img_width A) < 0 \<and>
      passed (cross (bird.x (birds t ! 0)) (Pipe_move p)) \<and>
      pipes t' \<noteq> [] \<and> \<not> passed (last (pipes t'))"
    if h: "length (ge t) = length (birds t) \<and> 0 \<le> bird.x (birds t ! 0) \<and>
      pipes t \<noteq> [] \<and> \<not> passed (last (pipes t)) \<and>
      tick A nets inp t = Continue t' \<and> p \<in> set (pipes t) \<and>
      cross (bird.x (birds t ! 0)) (Pipe_move p) \<notin> set (pipes t')"
  proof -
    from h have l: "length (ge t) = length (birds t)" and x0: "0 \<le> bird.x (birds t ! 0)"
      and ne: "pipes t \<noteq> []" and unp: "\<not> passed (last (pipes t))"
      and t: "tick A nets inp t = Continue t'" and pin: "p \<in> set (pipes t)"
      and gone: "cross (bird.x (birds t ! 0)) (Pipe_move p) \<notin> set (pipes t')" by blast+
    from tick_pipes(2)[OF t l ne unp x0 pin gone] tick_pipes(1)[OF t l ne unp x0]
    show ?thesis by (simp add: Pipe_VEL_def)
  qed
  from a b c show ?thesis by blast
qed

theorem pipe_lookup_in_bounds_witness:
  "eval_genomes stock [hover, never_jump] 0 150 (replicate 95 no_quit) = Running after_first_pass \<and>
   eval_genomes stock [hover, never_jump] 0 150 (replicate 95 no_quit) \<noteq> Raised IndexError \<and>
   length (pipes after_first_pass) = 2 \<and>
   pipe_ind stock after_first_pass < length (pipes after_first_pass) \<and>
   \<not> passed (last (pipes after_first_pass)) \<and>
   tick stock [hover, never_jump] no_quit pipe_leaving = Continue pipe_left \<and>
   gap200 (- 100) True \<in> set (pipes pipe_leaving) \<and>
   cross 230 (Pipe_move (gap200 (- 100) True)) \<notin> set (pipes pipe_left) \<and>
   pipe.x (gap200 (- 100) True) - Pipe_VEL + int (pipe_img_width stock) < 0 \<and>
   passed (cross 230 (Pipe_move (gap200 (- 100) True)))"
proof -
  note T = pipe_lookup_in_bounds[of stock "[hover, never_jump]" 0 150 "replicate 95 no_quit"
      IndexError after_first_pass pipe_leaving no_quit pipe_left "gap200 (- 100) True"]
  have x: "bird.x (birds pipe_leaving ! 0) = 230"
    by (simp add: pipe_leaving_def after_first_pass_def hovering_def)
  have h: "length (ge pipe_leaving) = length (birds pipe_leaving)"
    "0 \<le> bird.x (birds pipe_leaving ! 0)" "pipes pipe_leaving \<noteq> []"
    "\<not> passed (last (pipes pipe_leaving))" "gap200 (- 100) True \<in> set (pipes pipe_leaving)"
    by (simp_all add: pipe_leaving_def after_first_pass_def hovering_def gap200_def)
  have gone: "cross 230 (Pipe_move (gap200 (- 100) True)) \<notin> set (pipes pipe_left)"
    by (simp add: pipe_left_def gap200_def cross_def Pipe_move_def Pipe_VEL_def)
  have two: "length (pipes after_first_pass) = 2" by (simp add: after_first_pass_def)
  from T run_past_first_pass have 1: "pipe_ind stock after_first_pass < length (pipes after_first_pass)"
    and 2: "\<not> passed (last (pipes after_first_pass))"
    and 3: "eval_genomes stock [hover, never_jump] 0 150 (replicate 95 no_quit) \<noteq> Raised IndexError"
    by blast+
  from T h pipe_leaving_tick gone
  have 4: "pipe.x (gap200 (- 100) True) - Pipe_VEL + int (pipe_img_width stock) < 0"
    and 5: "passed (cross 230 (Pipe_move (gap200 (- 100) True)))"
    unfolding x by blast+
  from run_past_first_pass 3 two 1 2 pipe_leaving_tick h(5) gone 4 5 show ?thesis by blast
qed

end
